theory Spec2Isabelle
  imports Complex_Main
begin

section \<open>Errors\<close>

text \<open>
  The exceptions that the modelled code can raise. \<open>ConfigError\<close> is the error of the
  chunk builder's constructor; the others are Python's.
\<close>

datatype error =
    RuntimeError
  | ValueError
  | KeyError
  | TypeError
  | AssertionError
  | OverflowError
  | FileNotFoundError
  | ZeroDivisionError
  | ConfigError

section \<open>Partitioning the file list (\<open>np.array_split\<close>)\<close>

text \<open>
  \<open>prepare\<close> calls \<open>np.array_split(filenames, num_processes)\<close> with an integer number of
  sections. The library function computes
  \<^verbatim>\<open>
    Neach_section, extras = divmod(Ntotal, Nsections)
    section_sizes = [0] + extras * [Neach_section+1] + (Nsections-extras) * [Neach_section]
    div_points = array(section_sizes).cumsum()
    for i in range(Nsections):
        st = div_points[i]; end = div_points[i + 1]
        sub_arys.append(sary[st:end])
  \<close>
  and raises \<open>ValueError\<close> when \<open>Nsections <= 0\<close>.
\<close>

definition section_sizes :: "nat \<Rightarrow> nat \<Rightarrow> nat list" where
  "section_sizes Ntotal Nsections =
     (let Neach_section = Ntotal div Nsections; extras = Ntotal mod Nsections
      in 0 # replicate extras (Neach_section + 1) @ replicate (Nsections - extras) Neach_section)"

fun cumsum :: "nat \<Rightarrow> nat list \<Rightarrow> nat list" where
  "cumsum acc [] = []"
| "cumsum acc (x # xs) = (acc + x) # cumsum (acc + x) xs"

definition slice :: "'a list \<Rightarrow> nat \<Rightarrow> nat \<Rightarrow> 'a list" where
  \<comment> \<open>\<open>xs[st:end]\<close> for non-negative bounds; Python clips both to the length.\<close>
  "slice xs st en = drop st (take en xs)"

definition array_split :: "'a list \<Rightarrow> nat \<Rightarrow> error + 'a list list" where
  "array_split ary Nsections =
     (if Nsections = 0 then Inl ValueError
      else let div_points = cumsum 0 (section_sizes (length ary) Nsections)
           in Inr (map (\<lambda>i. slice ary (div_points ! i) (div_points ! (i + 1))) [0..<Nsections]))"

section \<open>Python numbers and slices used by \<open>prepare\<close>\<close>

text \<open>
  \<open>percentage\<close> is a Python float. A finite double is a dyadic number: the pair \<open>(m, e)\<close>
  stands for \<open>m * 2 ^ e\<close>. \<open>len(filenames) * percentage\<close> converts the length to a double
  and multiplies in binary64 arithmetic: the exact product is rounded to 53 significant
  bits (fewer below \<open>2 ^ - 1022\<close>, where the spacing stays \<open>2 ^ - 1074\<close>), to the nearest
  value and on a tie to the even one; a result of magnitude \<open>2 ^ 1024\<close> or more is infinite,
  and \<open>int\<close> of an infinite float raises \<open>OverflowError\<close>. \<open>int\<close> truncates toward zero.
  Infinite and NaN arguments are outside the model.
\<close>

type_synonym pyfloat = "int \<times> int"

definition float_val :: "pyfloat \<Rightarrow> rat" where
  "float_val f = of_int (fst f) * power_int 2 (snd f)"

function bit_length :: "int \<Rightarrow> int" where
  \<comment> \<open>\<open>int.bit_length\<close> of a non-negative integer\<close>
  "bit_length n = (if n \<le> 0 then 0 else 1 + bit_length (n div 2))"
  by pat_completeness auto
termination
  by (relation "measure nat") auto

declare bit_length.simps [simp del]

definition round_double :: "pyfloat \<Rightarrow> pyfloat option" where
  \<comment> \<open>the nearest double, \<open>None\<close> for an infinite result\<close>
  "round_double f =
     (case f of (m, e) \<Rightarrow>
        if m = 0 then Some (0, 0)
        else let q = max (bit_length \<bar>m\<bar> - 1 + e - 52) (- 1074)
             in if q \<le> e
                then (if 1024 < bit_length \<bar>m\<bar> + e then None else Some (m, e))
                else let s = nat (q - e);
                         d = \<bar>m\<bar> div 2 ^ s;
                         r = \<bar>m\<bar> mod 2 ^ s;
                         h = 2 ^ (s - 1);
                         n = (if r < h then d else if h < r then d + 1
                              else if even d then d else d + 1)
                     in if 1024 < bit_length n + q then None else Some (sgn m * n, q))"

definition float_of_nat :: "nat \<Rightarrow> pyfloat option" where
  "float_of_nat n = round_double (int n, 0)"

definition float_mul :: "pyfloat option \<Rightarrow> pyfloat \<Rightarrow> pyfloat option" where
  "float_mul a y =
     (case a of None \<Rightarrow> None | Some x \<Rightarrow> round_double (fst x * fst y, snd x + snd y))"

definition py_int :: "pyfloat option \<Rightarrow> error + int" where
  "py_int a =
     (case a of
        None \<Rightarrow> Inl OverflowError
      | Some (m, e) \<Rightarrow>
          Inr (if 0 \<le> e then m * 2 ^ nat e else sgn m * (\<bar>m\<bar> div 2 ^ nat (- e))))"

definition py_slice_to :: "'a list \<Rightarrow> int \<Rightarrow> 'a list" where
  \<comment> \<open>\<open>xs[:k]\<close>: a negative \<open>k\<close> counts from the end\<close>
  "py_slice_to xs k = (if k < 0 then take (nat (int (length xs) + k)) xs else take (nat k) xs)"

definition digit :: "nat \<Rightarrow> char" where
  "digit d = ''0123456789'' ! d"

fun str_nat :: "nat \<Rightarrow> string" where
  \<comment> \<open>\<open>str(n)\<close> of a non-negative integer: its decimal digits\<close>
  "str_nat n = (if n < 10 then [digit n] else str_nat (n div 10) @ [digit (n mod 10)])"

declare str_nat.simps [simp del]

section \<open>The world a run acts on\<close>

text \<open>
  The destination directory holds shard files. The log records, in order, the actions
  of a run that the properties below speak about: starting a worker with its group of files,
  creating the directory, constructing a tokenizer or a builder, writing a shard, and the
  way each worker ended.
\<close>

type_synonym token = int

type_synonym shard_name = "string \<times> nat"

record shard =
  hdr_dtype_width :: nat
  hdr_chunk_size :: nat
  body :: "token list"

datatype event =
    Spawn nat "string list"
  | Mkdir
  | NewTokenizer
  | NewBuilder string
  | WriteShard shard_name
  | Exit nat "error + unit"

record world =
  dir_exists :: bool
  files :: "shard_name \<rightharpoonup> shard"
  log :: "event list"

text \<open>
  The tokenizer is an external collaborator: \<open>encode\<close>, the boundary token \<open>bos_id\<close> and
  \<open>vocab_size\<close> are parameters. The corpus is a map from a file path to the \<open>content\<close>
  fields of the documents \<open>json.load\<close> reads from it; opening a path outside it raises
  \<open>FileNotFoundError\<close>.
\<close>

record tokenizer =
  encode :: "string \<Rightarrow> token list"
  bos_id :: token
  vocab_size :: nat

type_synonym corpus = "string \<rightharpoonup> string list"

section \<open>The chunk builder\<close>

text \<open>
  Modelled from the spec: \<open>lit_gpt.packed_dataset.PackedDatasetBuilder\<close> is not among the
  sources. The spec gives the builder's state as \<open>{buffer, shard_index, dtype_width,
  sep_token, total_tokens_written}\<close>; \<open>new\<close> fails with \<open>ConfigError\<close> if \<open>chunkSize <= 0\<close>;
  \<open>dtype_width = 2\<close> iff \<open>vocab_size < 65500\<close>, else \<open>4\<close>; \<open>append\<close> pushes \<open>sepToken\<close> then
  the tokens onto the buffer and, while the buffer length is at least \<open>chunkSize\<close>, removes
  the first \<open>chunkSize\<close> tokens and writes them as a new shard named from \<open>namePrefix\<close> and
  the current \<open>shard_index\<close>, then increments \<open>shard_index\<close>; \<open>finalize\<close> discards the
  buffer and returns the counters. A shard is identified by \<open>(prefix, shard_index)\<close>; its
  header records \<open>dtype_width\<close> and \<open>chunkSize\<close> (the constant format version tag is left
  out). Failures of the file system are not modelled.
\<close>

record builder =
  name_prefix :: string
  chunk_size :: nat
  sep_token :: token
  dtype_width :: nat
  buffer :: "token list"
  shard_index :: nat
  total_tokens_written :: nat

definition shard_name :: "string \<Rightarrow> nat \<Rightarrow> shard_name" where
  "shard_name namePrefix idx = (namePrefix, idx)"

definition builder_new :: "string \<Rightarrow> int \<Rightarrow> token \<Rightarrow> nat \<Rightarrow> error + builder" where
  "builder_new namePrefix chunkSize sepToken vocabSize =
     (if chunkSize \<le> 0 then Inl ConfigError
      else Inr \<lparr>name_prefix = namePrefix, chunk_size = nat chunkSize, sep_token = sepToken,
                dtype_width = (if vocabSize < 65500 then 2 else 4), buffer = [],
                shard_index = 0, total_tokens_written = 0\<rparr>)"

definition emit_shard :: "builder \<Rightarrow> builder" where
  \<comment> \<open>the builder after its first \<open>chunk_size\<close> tokens have left the buffer\<close>
  "emit_shard b =
     b\<lparr>buffer := drop (chunk_size b) (buffer b), shard_index := shard_index b + 1,
       total_tokens_written := total_tokens_written b + chunk_size b\<rparr>"

definition write_shard :: "builder \<Rightarrow> world \<Rightarrow> world" where
  \<comment> \<open>the first \<open>chunk_size\<close> tokens of the buffer written as the shard \<open>shard_index\<close>\<close>
  "write_shard b w =
     w\<lparr>files := (files w)(shard_name (name_prefix b) (shard_index b) \<mapsto>
          \<lparr>hdr_dtype_width = dtype_width b, hdr_chunk_size = chunk_size b,
           body = take (chunk_size b) (buffer b)\<rparr>),
       log := log w @ [WriteShard (shard_name (name_prefix b) (shard_index b))]\<rparr>"

partial_function (option) flush :: "builder \<Rightarrow> world \<Rightarrow> (builder \<times> world) option" where
  "flush b w =
     (if chunk_size b \<le> length (buffer b) then flush (emit_shard b) (write_shard b w)
      else Some (b, w))"

definition builder_append :: "token list \<Rightarrow> builder \<Rightarrow> world \<Rightarrow> (builder \<times> world) option" where
  "builder_append tokens b w = flush (b\<lparr>buffer := buffer b @ sep_token b # tokens\<rparr>) w"

definition finalize :: "builder \<Rightarrow> builder \<times> nat \<times> nat" where
  "finalize b = (b\<lparr>buffer := []\<rparr>, shard_index b, total_tokens_written b)"

section \<open>The worker (\<open>prepare_full\<close>)\<close>

text \<open>
  A result \<open>None\<close> stands for a call that does not return; \<open>Some (r, w)\<close> is a call that
  ends with the outcome \<open>r\<close> (\<open>Inl\<close> an exception) in the world \<open>w\<close>.
\<close>

fun add_rows :: "tokenizer \<Rightarrow> string list \<Rightarrow> builder \<Rightarrow> world \<Rightarrow> (builder \<times> world) option" where
  \<comment> \<open>\<open>for row in texts: builder.add_array(tokenizer.encode(row["content"]))\<close>\<close>
  "add_rows tok [] b w = Some (b, w)"
| "add_rows tok (row # rows) b w =
     (case builder_append (encode tok row) b w of
        None \<Rightarrow> None
      | Some (b', w') \<Rightarrow> add_rows tok rows b' w')"

fun process_files ::
  "tokenizer \<Rightarrow> corpus \<Rightarrow> string list \<Rightarrow> builder \<Rightarrow> world \<Rightarrow> ((error + builder) \<times> world) option" where
  \<comment> \<open>\<open>for filepath in filenames: ...\<close>\<close>
  "process_files tok src [] b w = Some (Inr b, w)"
| "process_files tok src (filepath # rest) b w =
     (case src filepath of
        None \<Rightarrow> Some (Inl FileNotFoundError, w)
      | Some texts \<Rightarrow>
          (case add_rows tok texts b w of
             None \<Rightarrow> None
           | Some (b', w') \<Rightarrow> process_files tok src rest b' w'))"

definition worker_prefix :: "string \<Rightarrow> nat \<Rightarrow> string" where
  \<comment> \<open>\<open>f"{split}_wudao_{process_id}"\<close>\<close>
  "worker_prefix split process_id = split @ ''_wudao_'' @ str_nat process_id"

definition prepare_full ::
  "tokenizer \<Rightarrow> corpus \<Rightarrow> int \<Rightarrow> string \<Rightarrow> string list \<Rightarrow> nat \<Rightarrow> world
     \<Rightarrow> ((error + unit) \<times> world) option" where
  "prepare_full tok src chunkSize split filenames_subset process_id w =
     (let w1 = w\<lparr>dir_exists := True, log := log w @ [Mkdir]\<rparr>;
          w2 = w1\<lparr>log := log w1 @ [NewTokenizer]\<rparr>
      in if filenames_subset = []
         then Some (Inl (if split = ''train'' then RuntimeError else KeyError), w2)
         else (case builder_new (worker_prefix split process_id) chunkSize
                      (bos_id tok) (vocab_size tok) of
                 Inl e \<Rightarrow> Some (Inl e, w2)
               | Inr b \<Rightarrow>
                   (case process_files tok src filenames_subset b
                           (w2\<lparr>log := log w2 @ [NewBuilder (worker_prefix split process_id)]\<rparr>) of
                      None \<Rightarrow> None
                    | Some (Inl e, w3) \<Rightarrow> Some (Inl e, w3)
                    | Some (Inr b', w3) \<Rightarrow> Some (Inr (), w3))))"

section \<open>The orchestrator (\<open>prepare\<close>)\<close>

text \<open>
  The list that \<open>glob\<close> returns and the value of \<open>cpu_count()\<close> are parameters. The worker
  processes share nothing but the destination directory; the model runs each to its end
  when it is started, in the order of the groups, and records its outcome as the
  process's exit. \<open>join\<close> raises nothing, so \<open>prepare\<close> then prints the elapsed time and
  returns.
\<close>

fun run_workers ::
  "tokenizer \<Rightarrow> corpus \<Rightarrow> int \<Rightarrow> string \<Rightarrow> nat \<Rightarrow> string list list \<Rightarrow> world \<Rightarrow> world option" where
  \<comment> \<open>\<open>for i, subset in enumerate(chunked_filenames): Process(...).start()\<close>\<close>
  "run_workers tok src chunkSize split i [] w = Some w"
| "run_workers tok src chunkSize split i (files_i # rest) w =
     (case prepare_full tok src chunkSize split files_i i (w\<lparr>log := log w @ [Spawn i files_i]\<rparr>) of
        None \<Rightarrow> None
      | Some (r, w') \<Rightarrow>
          run_workers tok src chunkSize split (Suc i) rest (w'\<lparr>log := log w' @ [Exit i r]\<rparr>))"

definition selected_files :: "string list \<Rightarrow> pyfloat \<Rightarrow> error + string list" where
  \<comment> \<open>\<open>filenames[:int(len(filenames) * percentage)]\<close>\<close>
  "selected_files globbed percentage =
     (case py_int (float_mul (float_of_nat (length globbed)) percentage) of
        Inl e \<Rightarrow> Inl e
      | Inr k \<Rightarrow> Inr (py_slice_to globbed k))"

definition prepare ::
  "tokenizer \<Rightarrow> corpus \<Rightarrow> string list \<Rightarrow> nat \<Rightarrow> int \<Rightarrow> string \<Rightarrow> pyfloat \<Rightarrow> world
     \<Rightarrow> ((error + unit) \<times> world) option" where
  "prepare tok src globbed num_processes chunkSize split percentage w =
     (if split \<noteq> ''train'' then Some (Inl KeyError, w)
      else case selected_files globbed percentage of
        Inl e \<Rightarrow> Some (Inl e, w)
      | Inr filenames \<Rightarrow>
          (case array_split filenames num_processes of
             Inl e \<Rightarrow> Some (Inl e, w)
           | Inr chunked_filenames \<Rightarrow>
               (case run_workers tok src chunkSize split 0 chunked_filenames w of
                  None \<Rightarrow> None
                | Some w' \<Rightarrow> Some (Inr (), w'))))"

text \<open>What a log says was started, and how the workers ended.\<close>

fun spawned :: "event list \<Rightarrow> (nat \<times> string list) list" where
  "spawned [] = []"
| "spawned (Spawn i fs # es) = (i, fs) # spawned es"
| "spawned (e # es) = spawned es"

fun exits :: "event list \<Rightarrow> (nat \<times> (error + unit)) list" where
  "exits [] = []"
| "exits (Exit i r # es) = (i, r) # exits es"
| "exits (e # es) = exits es"

section \<open>The configuration registry (\<open>Config.from_name\<close>)\<close>

text \<open>
  Python dictionaries are objects: a variable holds a reference, and \<open>update\<close> changes the
  object that every holder of the reference sees. The store maps addresses to
  dictionaries, each a list of key/value pairs in insertion order; \<open>next_addr\<close> is the
  first address not yet allocated. A nested dictionary (\<open>hf_config\<close>) is a reference.
\<close>

datatype pyval =
    VNone
  | VBool bool
  | VInt int
  | VFloat pyfloat
  | VStr string
  | VDict nat

type_synonym pydict = "(string \<times> pyval) list"

record store =
  objs :: "nat \<rightharpoonup> pydict"
  next_addr :: nat

fun dict_set :: "pydict \<Rightarrow> string \<Rightarrow> pyval \<Rightarrow> pydict" where
  \<comment> \<open>\<open>d[k] = v\<close>: an existing key keeps its place, a new key goes last\<close>
  "dict_set [] k v = [(k, v)]"
| "dict_set ((k', v') # d) k v = (if k' = k then (k, v) # d else (k', v') # dict_set d k v)"

fun dict_update :: "pydict \<Rightarrow> pydict \<Rightarrow> pydict" where
  \<comment> \<open>the contents of \<open>d\<close> after \<open>d.update(kwargs)\<close>\<close>
  "dict_update d [] = d"
| "dict_update d ((k, v) # kwargs) = dict_update (dict_set d k v) kwargs"

definition copy_at :: "nat \<Rightarrow> store \<Rightarrow> (nat \<times> store) option" where
  \<comment> \<open>\<open>d.copy()\<close>: a new object with the same pairs (a shallow copy)\<close>
  "copy_at a s =
     (case objs s a of
        None \<Rightarrow> None
      | Some d \<Rightarrow> Some (next_addr s, s\<lparr>objs := (objs s)(next_addr s \<mapsto> d),
                                        next_addr := next_addr s + 1\<rparr>))"

definition update_at :: "nat \<Rightarrow> pydict \<Rightarrow> store \<Rightarrow> store" where
  \<comment> \<open>\<open>d.update(kwargs)\<close> on the object at \<open>a\<close>\<close>
  "update_at a kwargs s =
     (case objs s a of
        None \<Rightarrow> s
      | Some d \<Rightarrow> s\<lparr>objs := (objs s)(a \<mapsto> dict_update d kwargs)\<rparr>)"

text \<open>
  \<open>name_to_config = {config["name"]: config for config in configs}\<close>: the registry maps
  each name to the preset's own dictionary object, a later preset of the same name
  replacing an earlier one; a preset without a name raises \<open>KeyError\<close>.
\<close>

fun name_to_config :: "store \<Rightarrow> nat list \<Rightarrow> error + (pyval \<rightharpoonup> nat)" where
  "name_to_config s [] = Inr Map.empty"
| "name_to_config s (config # configs) =
     (case objs s config of
        None \<Rightarrow> Inl KeyError
      | Some d \<Rightarrow>
          (case map_of d ''name'' of
             None \<Rightarrow> Inl KeyError
           | Some n \<Rightarrow>
               (case name_to_config s configs of
                  Inl e \<Rightarrow> Inl e
                | Inr reg \<Rightarrow> Inr (case reg n of None \<Rightarrow> reg(n \<mapsto> config) | Some _ \<Rightarrow> reg))))"

text \<open>
  The dataclass \<open>Config\<close>: its fields with their defaults, and \<open>__post_init__\<close>. An object
  is the dictionary of its fields. \<open>find_multiple\<close> comes from a module that is not among
  the sources and is a parameter. The arithmetic of \<open>__post_init__\<close> is modelled on
  integers; other operands are reported as \<open>TypeError\<close>.
\<close>

definition Config_defaults :: pydict where
  "Config_defaults =
     [(''org'', VStr ''Lightning-AI''), (''name'', VStr ''lit-GPT''), (''block_size'', VInt 4096),
      (''vocab_size'', VInt 50254), (''padding_multiple'', VInt 512),
      (''padded_vocab_size'', VNone), (''n_layer'', VInt 16), (''n_head'', VInt 32),
      (''n_embd'', VInt 4096), (''rotary_percentage'', VFloat (1, - 2)),
      (''parallel_residual'', VBool True), (''bias'', VBool True), (''n_query_groups'', VNone),
      (''shared_attention_norm'', VBool False), (''_norm_class'', VStr ''LayerNorm''),
      (''norm_eps'', VFloat (5902958103587057, - 69)), (''_mlp_class'', VStr ''GptNeoxMLP''),
      (''intermediate_size'', VNone), (''condense_ratio'', VInt 1)]"

definition field :: "pydict \<Rightarrow> string \<Rightarrow> pyval" where
  "field self k = (case map_of self k of None \<Rightarrow> VNone | Some v \<Rightarrow> v)"

definition py_mod :: "pyval \<Rightarrow> pyval \<Rightarrow> error + int" where
  "py_mod a b =
     (case (a, b) of
        (VInt x, VInt y) \<Rightarrow> if y = 0 then Inl ZeroDivisionError else Inr (x mod y)
      | _ \<Rightarrow> Inl TypeError)"

definition post_init :: "(pyval \<Rightarrow> pyval \<Rightarrow> error + pyval) \<Rightarrow> pydict \<Rightarrow> error + pydict" where
  "post_init find_multiple self =
     (case py_mod (field self ''n_embd'') (field self ''n_head'') of
        Inl e \<Rightarrow> Inl e
      | Inr r \<Rightarrow>
          if r \<noteq> 0 then Inl AssertionError
          else
            (case (if field self ''padded_vocab_size'' = VNone
                   then (case find_multiple (field self ''vocab_size'') (field self ''padding_multiple'') of
                           Inl e \<Rightarrow> Inl e
                         | Inr v \<Rightarrow> Inr (dict_set self ''padded_vocab_size'' v))
                   else Inr self) of
               Inl e \<Rightarrow> Inl e
             | Inr self1 \<Rightarrow>
                 (case (if field self1 ''n_query_groups'' \<noteq> VNone
                        then (case py_mod (field self1 ''n_head'') (field self1 ''n_query_groups'') of
                                Inl e \<Rightarrow> Inl e
                              | Inr r' \<Rightarrow> if r' \<noteq> 0 then Inl AssertionError else Inr self1)
                        else Inr (dict_set self1 ''n_query_groups'' (field self1 ''n_head''))) of
                    Inl e \<Rightarrow> Inl e
                  | Inr self2 \<Rightarrow>
                      if field self2 ''intermediate_size'' = VNone
                      then (if field self2 ''_mlp_class'' = VStr ''LLaMAMLP'' then Inl ValueError
                            else (case field self2 ''n_embd'' of
                                    VInt n \<Rightarrow> Inr (dict_set self2 ''intermediate_size'' (VInt (4 * n)))
                                  | _ \<Rightarrow> Inl TypeError))
                      else Inr self2)))"

definition Config_init :: "(pyval \<Rightarrow> pyval \<Rightarrow> error + pyval) \<Rightarrow> pydict \<Rightarrow> error + pydict" where
  \<comment> \<open>\<open>cls(**conf_dict)\<close>: a keyword that is not a field raises \<open>TypeError\<close>\<close>
  "Config_init find_multiple kwargs =
     (if \<exists>k \<in> set (map fst kwargs). k \<notin> set (map fst Config_defaults) then Inl TypeError
      else post_init find_multiple (dict_update Config_defaults kwargs))"

definition from_name ::
  "(pyval \<Rightarrow> pyval \<Rightarrow> error + pyval) \<Rightarrow> (pyval \<rightharpoonup> nat) \<Rightarrow> pyval \<Rightarrow> pydict \<Rightarrow> store
     \<Rightarrow> (error + pydict) \<times> store" where
  "from_name find_multiple registry name kwargs s =
     (case registry name of
        None \<Rightarrow> (Inl KeyError, s)
      | Some a \<Rightarrow>
          (case copy_at a s of
             None \<Rightarrow> (Inl KeyError, s)
           | Some (conf_dict, s1) \<Rightarrow>
               (let s2 = update_at conf_dict kwargs s1
                in (Config_init find_multiple (case objs s2 conf_dict of None \<Rightarrow> [] | Some d \<Rightarrow> d),
                    s2))))"

text \<open>The first two presets of the source, as a store and a registry.\<close>

definition s0 :: store where
  "s0 = \<lparr>objs = [0 \<mapsto> [(''org'', VStr ''stabilityai''), (''name'', VStr ''stablelm-base-alpha-3b''),
                         (''padding_multiple'', VInt 512)],
                   1 \<mapsto> [(''org'', VStr ''stabilityai''), (''name'', VStr ''stablelm-base-alpha-7b''),
                         (''n_head'', VInt 48), (''n_embd'', VInt 6144),
                         (''padding_multiple'', VInt 256)]],
          next_addr = 2\<rparr>"

section \<open>Notions used to state the properties\<close>

text \<open>
  A sequence of \<open>append\<close> calls on one builder; the separator-interleaved stream of the
  documents appended; the \<open>k\<close>-th block of \<open>cs\<close> tokens of a stream.
\<close>

fun append_all :: "token list list \<Rightarrow> builder \<Rightarrow> world \<Rightarrow> (builder \<times> world) option" where
  "append_all [] b w = Some (b, w)"
| "append_all (d # ds) b w =
     (case builder_append d b w of None \<Rightarrow> None | Some (b', w') \<Rightarrow> append_all ds b' w')"

definition stream :: "token \<Rightarrow> token list list \<Rightarrow> token list" where
  "stream sep docs = concat (map (\<lambda>d. sep # d) docs)"

definition chunk :: "nat \<Rightarrow> 'a list \<Rightarrow> nat \<Rightarrow> 'a list" where
  "chunk cs S k = take cs (drop (k * cs) S)"

text \<open>
  The builder \<open>b\<close> after \<open>n\<close> shards have left a buffer \<open>S\<close>, and the world after these
  \<open>n\<close> shards have been written.
\<close>

definition advanced :: "builder \<Rightarrow> token list \<Rightarrow> nat \<Rightarrow> builder" where
  "advanced b S n =
     b\<lparr>buffer := drop (n * chunk_size b) S, shard_index := shard_index b + n,
       total_tokens_written := total_tokens_written b + n * chunk_size b\<rparr>"

definition put_chunks :: "builder \<Rightarrow> token list \<Rightarrow> nat \<Rightarrow> world \<Rightarrow> world" where
  "put_chunks b S n w =
     w\<lparr>files := (\<lambda>nm. if fst nm = name_prefix b \<and> shard_index b \<le> snd nm \<and> snd nm < shard_index b + n
                     then Some \<lparr>hdr_dtype_width = dtype_width b, hdr_chunk_size = chunk_size b,
                                body = chunk (chunk_size b) S (snd nm - shard_index b)\<rparr>
                     else files w nm),
       log := log w @ map (\<lambda>k. WriteShard (shard_name (name_prefix b) (shard_index b + k))) [0..<n]\<rparr>"

fun written :: "event list \<Rightarrow> shard_name list" where
  "written [] = []"
| "written (WriteShard nm # es) = nm # written es"
| "written (e # es) = written es"

text \<open>The documents a worker reads from its files, up to the first file it cannot open.\<close>

fun rows_of :: "corpus \<Rightarrow> string list \<Rightarrow> string list" where
  "rows_of src [] = []"
| "rows_of src (filepath # rest) =
     (case src filepath of None \<Rightarrow> [] | Some texts \<Rightarrow> texts @ rows_of src rest)"

text \<open>
  What one worker does, written without the loops: the builder it constructs, the token
  stream it appends, its outcome, and the world it leaves.
\<close>

definition fresh_builder :: "tokenizer \<Rightarrow> int \<Rightarrow> string \<Rightarrow> nat \<Rightarrow> builder" where
  "fresh_builder tok chunkSize split process_id =
     \<lparr>name_prefix = worker_prefix split process_id, chunk_size = nat chunkSize,
      sep_token = bos_id tok, dtype_width = (if vocab_size tok < 65500 then 2 else 4),
      buffer = [], shard_index = 0, total_tokens_written = 0\<rparr>"

definition worker_stream :: "tokenizer \<Rightarrow> corpus \<Rightarrow> string list \<Rightarrow> token list" where
  "worker_stream tok src fs = stream (bos_id tok) (map (encode tok) (rows_of src fs))"

definition worker_start :: "string \<Rightarrow> nat \<Rightarrow> world \<Rightarrow> world" where
  "worker_start split process_id w =
     w\<lparr>dir_exists := True,
       log := log w @ [Mkdir, NewTokenizer, NewBuilder (worker_prefix split process_id)]\<rparr>"

definition worker_outcome :: "corpus \<Rightarrow> int \<Rightarrow> string \<Rightarrow> string list \<Rightarrow> error + unit" where
  "worker_outcome src chunkSize split fs =
     (if fs = [] then Inl (if split = ''train'' then RuntimeError else KeyError)
      else if chunkSize \<le> 0 then Inl ConfigError
      else if list_all (\<lambda>f. src f \<noteq> None) fs then Inr ()
      else Inl FileNotFoundError)"

definition worker_world ::
  "tokenizer \<Rightarrow> corpus \<Rightarrow> int \<Rightarrow> string \<Rightarrow> string list \<Rightarrow> nat \<Rightarrow> world \<Rightarrow> world" where
  "worker_world tok src chunkSize split fs i w =
     (if fs = [] \<or> chunkSize \<le> 0
      then w\<lparr>dir_exists := True, log := log w @ [Mkdir, NewTokenizer]\<rparr>
      else put_chunks (fresh_builder tok chunkSize split i) (worker_stream tok src fs)
             (length (worker_stream tok src fs) div nat chunkSize) (worker_start split i w))"

fun workers_world ::
  "tokenizer \<Rightarrow> corpus \<Rightarrow> int \<Rightarrow> string \<Rightarrow> nat \<Rightarrow> string list list \<Rightarrow> world \<Rightarrow> world" where
  "workers_world tok src chunkSize split i [] w = w"
| "workers_world tok src chunkSize split i (fs # rest) w =
     workers_world tok src chunkSize split (Suc i) rest
       (let w' = worker_world tok src chunkSize split fs i (w\<lparr>log := log w @ [Spawn i fs]\<rparr>)
        in w'\<lparr>log := log w' @ [Exit i (worker_outcome src chunkSize split fs)]\<rparr>)"

text \<open>The bodies of the shards \<open>0, \<dots>, n - 1\<close> of a prefix, as the destination holds them.\<close>

definition shard_bodies :: "world \<Rightarrow> string \<Rightarrow> nat \<Rightarrow> token list list" where
  "shard_bodies w p n =
     map (\<lambda>k. case files w (shard_name p k) of None \<Rightarrow> [] | Some sh \<Rightarrow> body sh) [0..<n]"

text \<open>Concrete inputs for the examples: a tokenizer, an empty destination.\<close>

definition tok0 :: tokenizer where
  "tok0 = \<lparr>encode = map (\<lambda>c. int (of_char c)), bos_id = 1, vocab_size = 32000\<rparr>"

definition w0 :: world where
  "w0 = \<lparr>dir_exists = False, files = Map.empty, log = []\<rparr>"

section \<open>Properties of the partition\<close>

lemma length_cumsum: "length (cumsum acc xs) = length xs"
  by (induction xs arbitrary: acc) auto

lemma cumsum_nth: "i < length xs \<Longrightarrow> cumsum acc xs ! i = acc + sum_list (take (Suc i) xs)"
proof (induction xs arbitrary: acc i)
  case Nil
  then show ?case by simp
next
  case (Cons x xs)
  show ?case
  proof (cases i)
    case 0
    then show ?thesis by simp
  next
    case (Suc j)
    with Cons.prems have "j < length xs" by simp
    from Cons.IH [OF this, of "acc + x"] Suc show ?thesis by simp
  qed
qed

lemma sum_list_take_two_replicates:
  "sum_list (take i (replicate e a @ replicate m b)) = min i e * a + min (i - e) m * b"
  by (simp add: sum_list_replicate)

lemma div_points_nth:
  assumes "i \<le> n"
  shows "cumsum 0 (section_sizes N n) ! i = i * (N div n) + min i (N mod n)"
proof -
  have len: "i < length (section_sizes N n)"
    using assms by (simp add: section_sizes_def Let_def)
  have "cumsum 0 (section_sizes N n) ! i = sum_list (take (Suc i) (section_sizes N n))"
    using cumsum_nth [OF len, of 0] by simp
  also have "\<dots> = min i (N mod n) * (N div n + 1) + min (i - N mod n) (n - N mod n) * (N div n)"
    using sum_list_take_two_replicates [of i "N mod n" "N div n + 1" "n - N mod n" "N div n"]
    by (simp add: section_sizes_def Let_def)
  also have "min (i - N mod n) (n - N mod n) = i - N mod n"
    using assms by simp
  also have "min i (N mod n) * (N div n + 1) + (i - N mod n) * (N div n)
      = (min i (N mod n) + (i - N mod n)) * (N div n) + min i (N mod n)"
    by (simp add: algebra_simps)
  also have "min i (N mod n) + (i - N mod n) = i"
    by simp
  finally show ?thesis .
qed

lemma div_points_mono:
  assumes "i \<le> j" "j \<le> n"
  shows "cumsum 0 (section_sizes N n) ! i \<le> cumsum 0 (section_sizes N n) ! j"
proof -
  have "i * (N div n) \<le> j * (N div n)"
    using assms by (simp add: mult_le_mono1)
  moreover have "min i (N mod n) \<le> min j (N mod n)"
    using assms by simp
  ultimately show ?thesis
    using assms by (simp add: div_points_nth add_mono)
qed

lemma div_points_last:
  assumes "0 < n"
  shows "cumsum 0 (section_sizes N n) ! n = N"
proof -
  have "N mod n \<le> n" using assms by (simp add: less_imp_le)
  then have "min n (N mod n) = N mod n" by simp
  then show ?thesis by (simp add: div_points_nth mult.commute)
qed

lemma concat_slices:
  assumes mono: "\<And>i j. i \<le> j \<Longrightarrow> j \<le> n \<Longrightarrow> dp i \<le> dp j" and zero: "dp 0 = (0::nat)"
  shows "k \<le> n \<Longrightarrow> concat (map (\<lambda>i. slice xs (dp i) (dp (i + 1))) [0..<k]) = take (dp k) xs"
proof (induction k)
  case 0
  then show ?case by (simp add: zero)
next
  case (Suc k)
  then have IH: "concat (map (\<lambda>i. slice xs (dp i) (dp (i + 1))) [0..<k]) = take (dp k) xs"
    by simp
  have le: "dp k \<le> dp (Suc k)" using mono [of k "Suc k"] Suc.prems by simp
  have "take (dp k) xs @ slice xs (dp k) (dp (Suc k)) = take (dp (Suc k)) xs"
  proof -
    have "take (dp k) xs = take (dp k) (take (dp (Suc k)) xs)"
      using le by (simp add: min_def)
    then show ?thesis
      unfolding slice_def by (metis append_take_drop_id)
  qed
  with IH show ?case by simp
qed

lemma array_split_groups:
  assumes "0 < n"
  shows "array_split xs n =
    Inr (map (\<lambda>i. slice xs (i * (length xs div n) + min i (length xs mod n))
                        (Suc i * (length xs div n) + min (Suc i) (length xs mod n))) [0..<n])"
  using assms by (simp add: array_split_def Let_def div_points_nth)

lemma array_split_concat:
  assumes "0 < n" and "array_split xs n = Inr gs"
  shows "concat gs = xs"
proof -
  let ?dp = "\<lambda>i. cumsum 0 (section_sizes (length xs) n) ! i"
  have gs: "gs = map (\<lambda>i. slice xs (?dp i) (?dp (i + 1))) [0..<n]"
    using assms by (simp add: array_split_def Let_def)
  have "?dp 0 = 0" by (simp add: div_points_nth)
  then have "concat gs = take (?dp n) xs"
    unfolding gs using concat_slices [of n ?dp n xs] div_points_mono by simp
  then show ?thesis
    using assms(1) by (simp add: div_points_last)
qed

lemma array_split_length:
  assumes "0 < n" and "array_split xs n = Inr gs"
  shows "length gs = n"
  using assms by (auto simp: array_split_def Let_def)

lemma array_split_group_length:
  assumes "0 < n" and "array_split xs n = Inr gs" and "i < n"
  shows "length (gs ! i) = length xs div n + (if i < length xs mod n then 1 else 0)"
proof -
  let ?N = "length xs"
  have g: "gs ! i = slice xs (i * (?N div n) + min i (?N mod n))
                             (Suc i * (?N div n) + min (Suc i) (?N mod n))"
    using assms array_split_groups [OF assms(1), of xs] by auto
  have "Suc i * (?N div n) + min (Suc i) (?N mod n) \<le> ?N"
  proof -
    have "cumsum 0 (section_sizes ?N n) ! Suc i \<le> cumsum 0 (section_sizes ?N n) ! n"
      using assms by (intro div_points_mono) simp_all
    then show ?thesis
      using assms div_points_last [OF assms(1), of ?N] by (simp add: div_points_nth)
  qed
  then have "length (gs ! i) = (Suc i * (?N div n) + min (Suc i) (?N mod n))
                               - (i * (?N div n) + min i (?N mod n))"
    unfolding g slice_def by simp
  also have "\<dots> = ?N div n + (if i < ?N mod n then 1 else 0)"
    by (simp add: min_def)
  finally show ?thesis .
qed

section \<open>The builder in closed form\<close>

lemma advanced_0 [simp]: "advanced b (buffer b) 0 = b"
  by (simp add: advanced_def)

lemma put_chunks_0 [simp]: "put_chunks b S 0 w = w"
proof -
  have "(\<lambda>nm. if fst nm = name_prefix b \<and> shard_index b \<le> snd nm \<and> snd nm < shard_index b + 0
                     then Some \<lparr>hdr_dtype_width = dtype_width b, hdr_chunk_size = chunk_size b,
                                body = chunk (chunk_size b) S (snd nm - shard_index b)\<rparr>
                     else files w nm) = files w"
    by (rule ext) auto
  then show ?thesis unfolding put_chunks_def by simp
qed

lemma upt_shift: "map f [0..<Suc n] = f 0 # map (\<lambda>k. f (Suc k)) [0..<n]"
  by (simp add: upt_rec [of 0 "Suc n"] map_Suc_upt [symmetric] del: upt_Suc)

lemma chunk_drop: "chunk cs (drop (m * cs) S) j = chunk cs S (m + j)"
  by (simp add: chunk_def algebra_simps)

lemma chunk_0: "chunk cs S 0 = take cs S"
  by (simp add: chunk_def)

lemma flush_closed:
  "0 < chunk_size b \<Longrightarrow> n = length (buffer b) div chunk_size b \<Longrightarrow>
    flush b w = Some (advanced b (buffer b) n, put_chunks b (buffer b) n w)"
proof (induction n arbitrary: b w)
  case 0
  then have "\<not> chunk_size b \<le> length (buffer b)"
    by (simp add: div_eq_0_iff)
  then show ?case by (subst flush.simps) simp
next
  case (Suc n)
  let ?cs = "chunk_size b" and ?B = "buffer b"
  note assms = Suc.prems(1)
  from Suc.prems have ge: "?cs \<le> length ?B"
    by (metis div_eq_0_iff nat.distinct(1) not_le)
  have n: "n = length (buffer (emit_shard b)) div chunk_size (emit_shard b)"
    using Suc.prems(2) le_div_geq [OF assms ge] by (simp add: emit_shard_def)
  have cs': "0 < chunk_size (emit_shard b)"
    using assms by (simp add: emit_shard_def)
  have "flush b w = flush (emit_shard b) (write_shard b w)"
    using ge by (subst flush.simps) simp
  also have "\<dots> = Some (advanced (emit_shard b) (buffer (emit_shard b)) n,
      put_chunks (emit_shard b) (buffer (emit_shard b)) n (write_shard b w))"
    using Suc.IH [OF cs' n] by simp
  also have "advanced (emit_shard b) (buffer (emit_shard b)) n = advanced b ?B (Suc n)"
    by (simp add: advanced_def emit_shard_def add.commute)
  also have "put_chunks (emit_shard b) (buffer (emit_shard b)) n (write_shard b w)
      = put_chunks b ?B (Suc n) w"
  proof -
    have "\<And>nm. files (put_chunks (emit_shard b) (buffer (emit_shard b)) n (write_shard b w)) nm
        = files (put_chunks b ?B (Suc n) w) nm"
    proof -
      fix nm :: shard_name
      obtain q k where nm: "nm = (q, k)" by (cases nm)
      have c: "\<And>j. chunk ?cs (drop ?cs ?B) j = chunk ?cs ?B (Suc j)"
        using chunk_drop [of ?cs 1 ?B] by simp
      consider "q \<noteq> name_prefix b" | "q = name_prefix b" "k < shard_index b"
        | "q = name_prefix b" "k = shard_index b"
        | "q = name_prefix b" "shard_index b < k" "k < shard_index b + Suc n"
        | "q = name_prefix b" "shard_index b + Suc n \<le> k"
        by linarith
      then show "files (put_chunks (emit_shard b) (buffer (emit_shard b)) n (write_shard b w)) nm
        = files (put_chunks b ?B (Suc n) w) nm"
      proof cases
        case 4
        then have "k - Suc (shard_index b) = (k - shard_index b) - 1" "Suc (k - shard_index b - 1) = k - shard_index b"
          by simp_all
        with 4 show ?thesis
          by (simp add: nm put_chunks_def write_shard_def emit_shard_def shard_name_def c)
      qed (simp_all add: nm put_chunks_def write_shard_def emit_shard_def shard_name_def chunk_0)
    qed
    then have "files (put_chunks (emit_shard b) (buffer (emit_shard b)) n (write_shard b w))
        = files (put_chunks b ?B (Suc n) w)"
      by (rule ext)
    moreover have "log (put_chunks (emit_shard b) (buffer (emit_shard b)) n (write_shard b w))
        = log (put_chunks b ?B (Suc n) w)"
      by (simp add: put_chunks_def write_shard_def emit_shard_def upt_shift del: upt_Suc)
    moreover have "dir_exists (put_chunks (emit_shard b) (buffer (emit_shard b)) n (write_shard b w))
        = dir_exists (put_chunks b ?B (Suc n) w)"
      by (simp add: put_chunks_def write_shard_def)
    ultimately show ?thesis
      by (simp add: put_chunks_def write_shard_def)
  qed
  finally show ?case .
qed


lemma chunk_append: "Suc j * cs \<le> length B \<Longrightarrow> chunk cs (B @ T) j = chunk cs B j"
  by (simp add: chunk_def)

lemma map_upt_add: "map f [0..<m + n] = map f [0..<m] @ map (\<lambda>k. f (m + k)) [0..<n]"
  by (induction n) (simp_all add: add.assoc [symmetric])

lemma put_chunks_compose:
  assumes "n1 * chunk_size b \<le> length B1"
  shows "put_chunks (advanced b X n1) (drop (n1 * chunk_size b) (B1 @ T)) n2 (put_chunks b B1 n1 w)
       = put_chunks b (B1 @ T) (n1 + n2) w"
proof -
  let ?L = "put_chunks (advanced b X n1) (drop (n1 * chunk_size b) (B1 @ T)) n2 (put_chunks b B1 n1 w)"
  let ?R = "put_chunks b (B1 @ T) (n1 + n2) w"
  let ?cs = "chunk_size b"
  have "files ?L nm = files ?R nm" for nm
  proof -
    obtain q k where nm: "nm = (q, k)" by (cases nm)
    consider "q \<noteq> name_prefix b" | "q = name_prefix b" "k < shard_index b"
      | "q = name_prefix b" "shard_index b \<le> k" "k < shard_index b + n1"
      | "q = name_prefix b" "shard_index b + n1 \<le> k" "k < shard_index b + n1 + n2"
      | "q = name_prefix b" "shard_index b + n1 + n2 \<le> k"
      by linarith
    then show ?thesis
    proof cases
      case 3
      then have "Suc (k - shard_index b) \<le> n1" by simp
      then have "Suc (k - shard_index b) * ?cs \<le> n1 * ?cs"
        by (rule mult_le_mono1)
      with assms have "chunk ?cs (B1 @ T) (k - shard_index b) = chunk ?cs B1 (k - shard_index b)"
        by (intro chunk_append) simp
      with 3 show ?thesis
        by (simp add: nm put_chunks_def advanced_def)
    next
      case 4
      then have "n1 + (k - (shard_index b + n1)) = k - shard_index b" by simp
      with 4 show ?thesis
        by (simp add: nm put_chunks_def advanced_def chunk_drop del: drop_append)
    qed (simp_all add: nm put_chunks_def advanced_def)
  qed
  then have "files ?L = files ?R" by (rule ext)
  moreover have "log ?L = log ?R"
    by (simp add: put_chunks_def advanced_def map_upt_add add.assoc)
  moreover have "dir_exists ?L = dir_exists ?R"
    by (simp add: put_chunks_def)
  ultimately show ?thesis
    by (simp add: put_chunks_def)
qed

lemma advanced_compose:
  "advanced (advanced b X n1) (drop (n1 * chunk_size b) S) n2 = advanced b S (n1 + n2)"
proof -
  have "n2 * chunk_size b + n1 * chunk_size b = (n1 + n2) * chunk_size b"
    by (simp add: add_mult_distrib)
  then show ?thesis
    by (simp add: advanced_def add.assoc)
qed

lemma advanced_buffer_update [simp]: "advanced (b\<lparr>buffer := B\<rparr>) S n = advanced b S n"
  by (simp add: advanced_def)

lemma put_chunks_buffer_update [simp]: "put_chunks (b\<lparr>buffer := B\<rparr>) S n w = put_chunks b S n w"
  by (simp add: put_chunks_def cong: if_cong)

lemma append_all_step:
  assumes cs: "0 < chunk_size b"
    and app: "builder_append d b w = Some (advanced b B1 n1, put_chunks b B1 n1 w)"
    and n1: "n1 = length B1 div chunk_size b"
    and IH: "\<And>b' w'. 0 < chunk_size b' \<Longrightarrow> length (buffer b') < chunk_size b' \<Longrightarrow>
       append_all ds b' w' =
         Some (advanced b' (buffer b' @ stream (sep_token b') ds)
                 (length (buffer b' @ stream (sep_token b') ds) div chunk_size b'),
               put_chunks b' (buffer b' @ stream (sep_token b') ds)
                 (length (buffer b' @ stream (sep_token b') ds) div chunk_size b') w')"
    and T: "T = stream (sep_token b) ds"
  shows "append_all (d # ds) b w =
     Some (advanced b (B1 @ T) (length (B1 @ T) div chunk_size b),
           put_chunks b (B1 @ T) (length (B1 @ T) div chunk_size b) w)"
proof -
  let ?cs = "chunk_size b"
  let ?b1 = "advanced b B1 n1"
  let ?w1 = "put_chunks b B1 n1 w"
  define S' where "S' = drop (n1 * ?cs) (B1 @ T)"
  define n2 where "n2 = length S' div ?cs"
  have le: "n1 * ?cs \<le> length B1"
    unfolding n1 by (rule div_times_less_eq_dividend)
  have cs1: "0 < chunk_size ?b1" using cs by (simp add: advanced_def)
  have buf1: "buffer ?b1 = drop (n1 * ?cs) B1" by (simp add: advanced_def)
  have "length (buffer ?b1) = length B1 mod ?cs"
    by (simp add: advanced_def n1 minus_div_mult_eq_mod)
  then have lt1: "length (buffer ?b1) < chunk_size ?b1"
    using cs by (simp add: advanced_def)
  have S': "buffer ?b1 @ stream (sep_token ?b1) ds = S'"
    unfolding S'_def T using le by (simp add: advanced_def)
  have "length (B1 @ T) = n1 * ?cs + length S'"
    unfolding S'_def using le by simp
  then have n: "length (B1 @ T) div ?cs = n1 + n2"
    unfolding n2_def using cs by simp
  have "append_all (d # ds) b w = append_all ds ?b1 ?w1"
    using app by simp
  also have "\<dots> = Some (advanced ?b1 S' n2, put_chunks ?b1 S' n2 ?w1)"
    using IH [OF cs1 lt1, of ?w1] unfolding S' n2_def by (simp add: advanced_def)
  also have "advanced ?b1 S' n2 = advanced b (B1 @ T) (n1 + n2)"
    unfolding S'_def by (rule advanced_compose)
  also have "put_chunks ?b1 S' n2 ?w1 = put_chunks b (B1 @ T) (n1 + n2) w"
    unfolding S'_def using le by (rule put_chunks_compose)
  finally show ?thesis
    unfolding n .
qed

lemma append_all_closed:
  "0 < chunk_size b \<Longrightarrow> length (buffer b) < chunk_size b \<Longrightarrow>
   append_all docs b w =
     Some (advanced b (buffer b @ stream (sep_token b) docs)
             (length (buffer b @ stream (sep_token b) docs) div chunk_size b),
           put_chunks b (buffer b @ stream (sep_token b) docs)
             (length (buffer b @ stream (sep_token b) docs) div chunk_size b) w)"
proof (induction docs arbitrary: b w)
  case Nil
  then show ?case by (simp add: stream_def)
next
  case (Cons d ds)
  define B1 where "B1 = buffer b @ sep_token b # d"
  have S: "buffer b @ stream (sep_token b) (d # ds) = B1 @ stream (sep_token b) ds"
    by (simp add: stream_def B1_def)
  have cs': "0 < chunk_size (b\<lparr>buffer := B1\<rparr>)"
    using Cons.prems(1) by simp
  have "builder_append d b w = flush (b\<lparr>buffer := B1\<rparr>) w"
    by (simp add: builder_append_def B1_def)
  also have "\<dots> = Some (advanced (b\<lparr>buffer := B1\<rparr>) (buffer (b\<lparr>buffer := B1\<rparr>)) (length B1 div chunk_size b),
      put_chunks (b\<lparr>buffer := B1\<rparr>) (buffer (b\<lparr>buffer := B1\<rparr>)) (length B1 div chunk_size b) w)"
    by (rule flush_closed [OF cs']) simp
  finally have app: "builder_append d b w
      = Some (advanced b B1 (length B1 div chunk_size b), put_chunks b B1 (length B1 div chunk_size b) w)"
    by simp
  show ?case
    unfolding S
    by (rule append_all_step [OF Cons.prems(1) app refl Cons.IH refl])
qed

section \<open>The worker and the orchestrator in closed form\<close>

lemma append_all_append:
  "append_all (xs @ ys) b w =
     (case append_all xs b w of None \<Rightarrow> None | Some (b', w') \<Rightarrow> append_all ys b' w')"
  by (induction xs arbitrary: b w) (auto split: option.splits)

lemma add_rows_append_all: "add_rows tok rows b w = append_all (map (encode tok) rows) b w"
  by (induction rows arbitrary: b w) (auto split: option.splits)

lemma process_files_append_all:
  "process_files tok src fs b w =
     (case append_all (map (encode tok) (rows_of src fs)) b w of
        None \<Rightarrow> None
      | Some (b', w') \<Rightarrow>
          Some (if list_all (\<lambda>f. src f \<noteq> None) fs then Inr b' else Inl FileNotFoundError, w'))"
proof (induction fs arbitrary: b w)
  case Nil
  then show ?case by simp
next
  case (Cons f fs)
  show ?case
  proof (cases "src f")
    case None
    then show ?thesis by simp
  next
    case (Some texts)
    then show ?thesis
      by (simp add: add_rows_append_all append_all_append Cons.IH split: option.splits)
  qed
qed

lemma prepare_full_closed:
  assumes "fs \<noteq> []" and "0 < chunkSize"
  shows "prepare_full tok src chunkSize split fs i w =
    Some (if list_all (\<lambda>f. src f \<noteq> None) fs then Inr () else Inl FileNotFoundError,
          put_chunks (fresh_builder tok chunkSize split i) (worker_stream tok src fs)
            (length (worker_stream tok src fs) div nat chunkSize) (worker_start split i w))"
proof -
  let ?b = "fresh_builder tok chunkSize split i"
  have new: "builder_new (worker_prefix split i) chunkSize (bos_id tok) (vocab_size tok) = Inr ?b"
    using assms(2) by (simp add: builder_new_def fresh_builder_def)
  have cs: "0 < chunk_size ?b" "length (buffer ?b) < chunk_size ?b"
    using assms(2) by (simp_all add: fresh_builder_def)
  have b: "buffer ?b = []" "sep_token ?b = bos_id tok" "chunk_size ?b = nat chunkSize"
    by (simp_all add: fresh_builder_def)
  show ?thesis
    using assms(1)
    by (simp add: prepare_full_def new process_files_append_all
        append_all_closed [OF cs] b worker_stream_def worker_start_def)
qed

lemma prepare_full_eq:
  "prepare_full tok src chunkSize split fs i w =
     Some (worker_outcome src chunkSize split fs, worker_world tok src chunkSize split fs i w)"
proof -
  consider "fs = []" | "fs \<noteq> []" "chunkSize \<le> 0" | "fs \<noteq> []" "0 < chunkSize"
    by linarith
  then show ?thesis
  proof cases
    case 1
    then show ?thesis
      by (simp add: prepare_full_def worker_outcome_def worker_world_def)
  next
    case 2
    then show ?thesis
      by (simp add: prepare_full_def builder_new_def worker_outcome_def worker_world_def)
  next
    case 3
    then show ?thesis
      by (simp add: prepare_full_closed worker_outcome_def worker_world_def)
  qed
qed

lemma run_workers_eq:
  "run_workers tok src chunkSize split i gs w = Some (workers_world tok src chunkSize split i gs w)"
  by (induction gs arbitrary: i w) (simp_all add: prepare_full_eq Let_def)

lemma spawned_append: "spawned (xs @ ys) = spawned xs @ spawned ys"
  by (induction xs rule: spawned.induct) simp_all

lemma exits_append: "exits (xs @ ys) = exits xs @ exits ys"
  by (induction xs rule: exits.induct) simp_all

lemma written_append: "written (xs @ ys) = written xs @ written ys"
  by (induction xs rule: written.induct) simp_all

lemma spawned_WriteShard: "spawned (map (\<lambda>k. WriteShard (f k)) ks) = []"
  by (induction ks) simp_all

lemma exits_WriteShard: "exits (map (\<lambda>k. WriteShard (f k)) ks) = []"
  by (induction ks) simp_all

lemma written_WriteShard: "written (map (\<lambda>k. WriteShard (f k)) ks) = map f ks"
  by (induction ks) simp_all

lemma spawned_worker_world:
  "spawned (log (worker_world tok src chunkSize split fs i w)) = spawned (log w)"
  by (simp add: worker_world_def put_chunks_def worker_start_def spawned_append spawned_WriteShard)

lemma exits_worker_world:
  "exits (log (worker_world tok src chunkSize split fs i w)) = exits (log w)"
  by (simp add: worker_world_def put_chunks_def worker_start_def exits_append exits_WriteShard)

lemma spawned_workers_world:
  "spawned (log (workers_world tok src chunkSize split i gs w))
     = spawned (log w) @ zip [i..<i + length gs] gs"
proof (induction gs arbitrary: i w)
  case Nil
  then show ?case by simp
next
  case (Cons g gs)
  have "[i..<i + length (g # gs)] = i # [Suc i..<Suc i + length gs]"
    by (simp add: upt_rec)
  then show ?case
    by (simp add: Cons.IH Let_def spawned_append spawned_worker_world)
qed

lemma exits_workers_world:
  "exits (log (workers_world tok src chunkSize split i gs w))
     = exits (log w) @ map (\<lambda>(k, g). (k, worker_outcome src chunkSize split g)) (zip [i..<i + length gs] gs)"
proof (induction gs arbitrary: i w)
  case Nil
  then show ?case by simp
next
  case (Cons g gs)
  have "[i..<i + length (g # gs)] = i # [Suc i..<Suc i + length gs]"
    by (simp add: upt_rec)
  then show ?case
    by (simp add: Cons.IH Let_def exits_append exits_worker_world)
qed

lemma prepare_eq:
  assumes "split = ''train''" and "selected_files globbed percentage = Inr fs"
    and "array_split fs num_processes = Inr gs"
  shows "prepare tok src globbed num_processes chunkSize split percentage w =
    Some (Inr (), workers_world tok src chunkSize split 0 gs w)"
  using assms by (simp add: prepare_def run_workers_eq)

lemma zip_upt_nth_eq:
  "length gs = n \<Longrightarrow> zip [0..<n] gs = map (\<lambda>i. (i, gs ! i)) [0..<n]"
  by (auto simp: list_eq_iff_nth_eq)

section \<open>Evaluation on small inputs\<close>

lemma str_nat_small: "n < 10 \<Longrightarrow> str_nat n = [digit n]"
  by (simp add: str_nat.simps)

lemma bit_length_1: "bit_length 1 = 1"
  by (simp add: bit_length.simps)

lemma bit_length_2: "bit_length 2 = 2"
  by (simp add: bit_length.simps [of 2] bit_length_1)

lemma round_double_1: "round_double (1, 0) = Some (1, 0)"
  by (simp add: round_double_def bit_length_1)

lemma round_double_2: "round_double (2, 0) = Some (2, 0)"
  by (simp add: round_double_def bit_length_2)

lemma selected_files_nil: "selected_files [] percentage = Inr []"
  by (simp add: selected_files_def float_of_nat_def float_mul_def round_double_def py_int_def
      py_slice_to_def)

lemma selected_files_one: "selected_files [f] (1, 0) = Inr [f]"
  by (simp add: selected_files_def float_of_nat_def float_mul_def round_double_1 py_int_def
      py_slice_to_def)

lemma selected_files_two: "selected_files [f, g] (1, 0) = Inr [f, g]"
  by (simp add: selected_files_def float_of_nat_def float_mul_def round_double_2 py_int_def
      py_slice_to_def)

lemma worker_prefix_0: "worker_prefix ''train'' 0 = ''train_wudao_0''"
  by (simp add: worker_prefix_def str_nat_small digit_def)

lemma worker_prefix_1: "worker_prefix ''train'' 1 = ''train_wudao_1''"
  by (simp add: worker_prefix_def str_nat_small digit_def)

lemma array_split_nil:
  assumes "0 < n"
  shows "array_split ([] :: 'a list) n = Inr (replicate n [])"
proof -
  obtain gs where gs: "array_split ([] :: 'a list) n = Inr gs"
    using assms by (simp add: array_split_def Let_def)
  have "length gs = n"
    using assms gs by (rule array_split_length)
  moreover have "gs ! i = []" if "i < n" for i
    using array_split_group_length [OF assms gs that] by simp
  ultimately have "gs = replicate n []"
    by (intro nth_equalityI) simp_all
  with gs show ?thesis by simp
qed

lemma workers_world_empty_groups:
  "workers_world tok src chunkSize ''train'' i (replicate n []) w =
     w\<lparr>dir_exists := (0 < n \<or> dir_exists w),
       log := log w @ concat (map (\<lambda>k. [Spawn k [], Mkdir, NewTokenizer, Exit k (Inl RuntimeError)])
                                   [i..<i + n])\<rparr>"
proof (induction n arbitrary: i w)
  case 0
  then show ?case by simp
next
  case (Suc n)
  have e: "[i..<i + Suc n] = i # [Suc i..<Suc i + n]"
    by (simp add: upt_rec)
  show ?case
    unfolding e
    by (simp add: Suc.IH worker_world_def worker_outcome_def Let_def del: upt_Suc)
qed

section \<open>Claims about the partition\<close>

text \<open>
  C4. For every file list and every positive worker count \<open>n\<close>, the partition succeeds and
  yields \<open>n\<close> groups; the groups are contiguous and keep the order of the list, with no
  interleaving: concatenated in group order they give back the list, and their sizes sum
  to its length.
\<close>

theorem array_split_contiguous:
  assumes "0 < n"
  shows "\<exists>gs. array_split xs n = Inr gs \<and> length gs = n \<and> concat gs = xs
              \<and> sum_list (map length gs) = length xs"
proof -
  obtain gs where gs: "array_split xs n = Inr gs"
    using assms by (simp add: array_split_def Let_def)
  have "concat gs = xs"
    using assms gs by (rule array_split_concat)
  moreover have "length gs = n"
    using assms gs by (rule array_split_length)
  moreover have "sum_list (map length gs) = length (concat gs)"
    by (simp add: length_concat)
  ultimately show ?thesis
    using gs by simp
qed

text \<open>Four workers on eleven files: the groups have 3, 3, 3 and 2 files.\<close>

theorem array_split_contiguous_witness:
  "(0::nat) < 4
   \<and> (\<exists>gs. array_split [''f00'', ''f01'', ''f02'', ''f03'', ''f04'', ''f05'', ''f06'', ''f07'',
                          ''f08'', ''f09'', ''f10''] 4 = Inr gs
         \<and> length gs = 4
         \<and> concat gs = [''f00'', ''f01'', ''f02'', ''f03'', ''f04'', ''f05'', ''f06'', ''f07'',
                         ''f08'', ''f09'', ''f10'']
         \<and> sum_list (map length gs) = 11)"
  using array_split_contiguous [of 4 "[''f00'', ''f01'', ''f02'', ''f03'', ''f04'', ''f05'', ''f06'',
    ''f07'', ''f08'', ''f09'', ''f10'']"]
  by (simp add: eval_nat_numeral)

text \<open>
  C9. Whenever the run reaches the partition (the split is \<open>train\<close>, the CPU count is
  positive, the sampled list is \<open>fs\<close>), the partition has exactly \<open>num_processes\<close> groups,
  also when \<open>fs\<close> has fewer files than that; group \<open>i\<close> has one file more than the quotient
  exactly when \<open>i\<close> is below the remainder, so the sizes differ by at most one and never
  grow along the list, and the groups from index \<open>length fs\<close> on are empty; a worker is
  started for every group, the empty ones included, in group order.
\<close>

theorem partition_sizes_and_workers:
  assumes "split = ''train''" and "0 < num_processes"
    and "selected_files globbed percentage = Inr fs"
  shows "\<exists>gs w'. array_split fs num_processes = Inr gs
    \<and> prepare tok src globbed num_processes chunkSize split percentage w = Some (Inr (), w')
    \<and> length gs = num_processes
    \<and> (\<forall>i<num_processes. length (gs ! i)
           = length fs div num_processes + (if i < length fs mod num_processes then 1 else 0))
    \<and> (\<forall>i j. i \<le> j \<and> j < num_processes \<longrightarrow>
           length (gs ! j) \<le> length (gs ! i) \<and> length (gs ! i) \<le> length (gs ! j) + 1)
    \<and> (\<forall>i<num_processes. length fs \<le> i \<longrightarrow> gs ! i = [])
    \<and> spawned (log w') = spawned (log w) @ map (\<lambda>i. (i, gs ! i)) [0..<num_processes]"
proof -
  let ?n = num_processes and ?N = "length fs"
  obtain gs where gs: "array_split fs ?n = Inr gs"
    using assms(2) by (simp add: array_split_def Let_def)
  have len: "length gs = ?n"
    using assms(2) gs by (rule array_split_length)
  have size: "length (gs ! i) = ?N div ?n + (if i < ?N mod ?n then 1 else 0)" if "i < ?n" for i
    using assms(2) gs that by (rule array_split_group_length)
  have mono: "length (gs ! j) \<le> length (gs ! i) \<and> length (gs ! i) \<le> length (gs ! j) + 1"
    if "i \<le> j \<and> j < ?n" for i j
    using that size [of i] size [of j] by (auto split: if_splits)
  have empty: "gs ! i = []" if "i < ?n" "?N \<le> i" for i
  proof -
    from that have "?N < ?n" by simp
    then have "?N div ?n = 0" "?N mod ?n = ?N" by simp_all
    with size [OF that(1)] that(2) show ?thesis by simp
  qed
  let ?w' = "workers_world tok src chunkSize split 0 gs w"
  have run: "prepare tok src globbed ?n chunkSize split percentage w = Some (Inr (), ?w')"
    using assms(1,3) gs by (rule prepare_eq)
  have "spawned (log ?w') = spawned (log w) @ map (\<lambda>i. (i, gs ! i)) [0..<?n]"
    using len by (simp add: spawned_workers_world zip_upt_nth_eq)
  with gs run len size mono empty show ?thesis
    by blast
qed

text \<open>Two files on four CPUs: four workers, the last two with empty groups.\<close>

theorem partition_sizes_and_workers_witness:
  "''train'' = ''train'' \<and> (0::nat) < 4
   \<and> selected_files [''a'', ''b''] (1, 0) = Inr [''a'', ''b'']
   \<and> array_split [''a'', ''b''] 4 = Inr [[''a''], [''b''], [], []]
   \<and> (\<exists>w'. prepare tok0 Map.empty [''a'', ''b''] 4 8 ''train'' (1, 0) w0 = Some (Inr (), w')
         \<and> spawned (log w') = [(0, [''a'']), (1, [''b'']), (2, []), (3, [])])"
proof -
  have sp: "array_split [''a'', ''b''] 4 = Inr [[''a''], [''b''], [], []]"
    by code_simp
  have pos: "(0::nat) < 4" by simp
  have "\<exists>gs w'. array_split [''a'', ''b''] 4 = Inr gs
    \<and> prepare tok0 Map.empty [''a'', ''b''] 4 8 ''train'' (1, 0) w0 = Some (Inr (), w')
    \<and> spawned (log w') = spawned (log w0) @ map (\<lambda>i. (i, gs ! i)) [0..<4]"
    using partition_sizes_and_workers [OF refl pos selected_files_two,
        of "''a''" "''b''" tok0 Map.empty 8 w0]
    by blast
  then obtain gs w' where "array_split [''a'', ''b''] 4 = Inr gs"
    and run: "prepare tok0 Map.empty [''a'', ''b''] 4 8 ''train'' (1, 0) w0 = Some (Inr (), w')"
    and sp': "spawned (log w') = spawned (log w0) @ map (\<lambda>i. (i, gs ! i)) [0..<4]"
    by blast
  with sp have gs: "gs = [[''a''], [''b''], [], []]" by simp
  have "[0..<4] = [0, 1, 2, 3::nat]" by code_simp
  with sp' gs have "spawned (log w') = [(0, [''a'']), (1, [''b'']), (2, []), (3, [])]"
    by (simp add: w0_def)
  with run have "\<exists>w'. prepare tok0 Map.empty [''a'', ''b''] 4 8 ''train'' (1, 0) w0 = Some (Inr (), w')
         \<and> spawned (log w') = [(0, [''a'']), (1, [''b'']), (2, []), (3, [])]"
    by blast
  with sp selected_files_two [of "''a''" "''b''"] pos show ?thesis
    by (intro conjI) (rule refl, assumption+)
qed

section \<open>Claims about the orchestrator\<close>

text \<open>
  C2, as the code has it. On an empty file list the orchestrator does not fail: with a
  positive CPU count it starts one worker per CPU, each with an empty group; each worker
  creates the destination directory and constructs its tokenizer, then raises
  \<open>RuntimeError\<close> at the guard on its file list, before a builder is constructed; no shard
  is written and the files of the destination are unchanged; the orchestrator returns
  normally.
\<close>

theorem empty_file_list_run:
  assumes "split = ''train''" and "0 < num_processes"
  shows "\<exists>w'. prepare tok src [] num_processes chunkSize split percentage w = Some (Inr (), w')
     \<and> dir_exists w' \<and> files w' = files w
     \<and> log w' = log w @ concat (map (\<lambda>k. [Spawn k [], Mkdir, NewTokenizer, Exit k (Inl RuntimeError)])
                                      [0..<num_processes])
     \<and> written (log w') = written (log w)"
proof -
  let ?evs = "concat (map (\<lambda>k. [Spawn k [], Mkdir, NewTokenizer, Exit k (Inl RuntimeError)])
                          [0..<num_processes])"
  let ?w' = "w\<lparr>dir_exists := True, log := log w @ ?evs\<rparr>"
  have "prepare tok src [] num_processes chunkSize split percentage w =
      Some (Inr (), workers_world tok src chunkSize split 0 (replicate num_processes []) w)"
    using assms(1) selected_files_nil array_split_nil [OF assms(2)] by (rule prepare_eq)
  then have run: "prepare tok src [] num_processes chunkSize split percentage w = Some (Inr (), ?w')"
    using assms by (simp add: workers_world_empty_groups)
  have "written ?evs = []"
    by (induction num_processes) (simp_all add: written_append)
  then have "written (log ?w') = written (log w)"
    by (simp add: written_append)
  with run show ?thesis
    by (intro exI [of _ ?w']) simp
qed

theorem empty_file_list_run_witness:
  "''train'' = ''train'' \<and> (0::nat) < 1
   \<and> (\<exists>w'. prepare tok0 Map.empty [] 1 8 ''train'' (1, 0) w0 = Some (Inr (), w')
         \<and> dir_exists w' \<and> files w' = files w0
         \<and> log w' = [Spawn 0 [], Mkdir, NewTokenizer, Exit 0 (Inl RuntimeError)]
         \<and> written (log w') = [])"
  using empty_file_list_run [of "''train''" 1 tok0 Map.empty 8 "(1, 0)" w0]
  by (simp add: w0_def)

text \<open>
  C2 as stated fails: on an empty list with two CPUs the run ends normally, after two
  workers were started and each created the directory and a tokenizer.
\<close>

theorem empty_file_list_counterexample:
  "prepare tok0 Map.empty [] 2 8 ''train'' (1, 0) w0 =
     Some (Inr (), \<lparr>dir_exists = True, files = Map.empty,
       log = [Spawn 0 [], Mkdir, NewTokenizer, Exit 0 (Inl RuntimeError),
              Spawn 1 [], Mkdir, NewTokenizer, Exit 1 (Inl RuntimeError)]\<rparr>)"
proof -
  have "array_split ([] :: string list) 2 = Inr [[], []]"
    using array_split_nil [of 2] by (simp add: eval_nat_numeral)
  then show ?thesis
    by (simp add: prepare_eq [OF refl selected_files_nil] worker_world_def worker_outcome_def
        w0_def Let_def)
qed

text \<open>
  C7, as the code has it. The orchestrator starts exactly one worker per group of the
  partition, in group order, whether the group is empty or not; the worker of an empty
  group ends with \<open>RuntimeError\<close>.
\<close>

theorem worker_per_group:
  assumes "split = ''train''" and "selected_files globbed percentage = Inr fs"
    and "array_split fs num_processes = Inr gs"
  shows "\<exists>w'. prepare tok src globbed num_processes chunkSize split percentage w = Some (Inr (), w')
     \<and> spawned (log w') = spawned (log w) @ zip [0..<length gs] gs
     \<and> map snd (drop (length (spawned (log w))) (spawned (log w'))) = gs
     \<and> (\<forall>i<length gs. gs ! i = [] \<longrightarrow> (i, Inl RuntimeError) \<in> set (exits (log w')))"
proof -
  let ?w' = "workers_world tok src chunkSize split 0 gs w"
  have run: "prepare tok src globbed num_processes chunkSize split percentage w = Some (Inr (), ?w')"
    using assms by (rule prepare_eq)
  have sp: "spawned (log ?w') = spawned (log w) @ zip [0..<length gs] gs"
    by (simp add: spawned_workers_world)
  then have groups: "map snd (drop (length (spawned (log w))) (spawned (log ?w'))) = gs"
    by simp
  have "(i, Inl RuntimeError) \<in> set (exits (log ?w'))" if "i < length gs" "gs ! i = []" for i
  proof -
    have "(i, gs ! i) \<in> set (zip [0..<length gs] gs)"
      using that(1) by (force simp: set_zip)
    then have "(i, worker_outcome src chunkSize split (gs ! i))
        \<in> (\<lambda>(k, g). (k, worker_outcome src chunkSize split g)) ` set (zip [0..<length gs] gs)"
      by force
    then show ?thesis
      using that(2) assms(1) by (simp add: exits_workers_world worker_outcome_def)
  qed
  with run sp groups show ?thesis
    by blast
qed

theorem worker_per_group_witness:
  "''train'' = ''train'' \<and> selected_files [''a''] (1, 0) = Inr [''a'']
   \<and> array_split [''a''] 2 = Inr [[''a''], []]
   \<and> (\<exists>w'. prepare tok0 [''a'' \<mapsto> [''hi'']] [''a''] 2 8 ''train'' (1, 0) w0 = Some (Inr (), w')
         \<and> spawned (log w') = [(0, [''a'']), (1, [])]
         \<and> (1, Inl RuntimeError) \<in> set (exits (log w')))"
proof -
  have sp: "array_split [''a''] 2 = Inr [[''a''], []]"
    by code_simp
  have u: "[0..<2] = [0, 1::nat]"
    by code_simp
  obtain w' where run: "prepare tok0 [''a'' \<mapsto> [''hi'']] [''a''] 2 8 ''train'' (1, 0) w0 = Some (Inr (), w')"
    and s: "spawned (log w') = spawned (log w0) @ zip [0..<length [[''a''], []]] [[''a''], []]"
    and e: "\<forall>i<length [[''a''], []]. [[''a''], []] ! i = [] \<longrightarrow> (i, Inl RuntimeError) \<in> set (exits (log w'))"
    using worker_per_group [OF refl selected_files_one sp, of tok0 "[''a'' \<mapsto> [''hi'']]" 8 w0]
    by blast
  from s have "spawned (log w') = [(0, [''a'']), (1, [])]"
    by (simp add: w0_def u)
  moreover from e have "(1, Inl RuntimeError) \<in> set (exits (log w'))"
    by simp
  ultimately have "\<exists>w'. prepare tok0 [''a'' \<mapsto> [''hi'']] [''a''] 2 8 ''train'' (1, 0) w0 = Some (Inr (), w')
         \<and> spawned (log w') = [(0, [''a'']), (1, [])]
         \<and> (1, Inl RuntimeError) \<in> set (exits (log w'))"
    using run by blast
  with sp selected_files_one [of "''a''"] show ?thesis
    by (intro conjI) (rule refl, assumption+)
qed

text \<open>
  C7 as stated fails: one file on two CPUs gives the groups \<open>[a]\<close> and \<open>[]\<close>, and a worker
  is started for the empty group too.
\<close>

theorem worker_for_empty_group_counterexample:
  "array_split [''a''] 2 = Inr [[''a''], []]
   \<and> prepare tok0 [''a'' \<mapsto> [''hi'']] [''a''] 2 8 ''train'' (1, 0) w0 =
       Some (Inr (), \<lparr>dir_exists = True, files = Map.empty,
         log = [Spawn 0 [''a''], Mkdir, NewTokenizer, NewBuilder ''train_wudao_0'', Exit 0 (Inr ()),
                Spawn 1 [], Mkdir, NewTokenizer, Exit 1 (Inl RuntimeError)]\<rparr>)"
proof -
  have sp: "array_split [''a''] 2 = Inr [[''a''], []]"
    by code_simp
  have "length (worker_stream tok0 [''a'' \<mapsto> [''hi'']] [''a'']) div nat 8 = 0"
    by (simp add: worker_stream_def stream_def tok0_def)
  then have "prepare tok0 [''a'' \<mapsto> [''hi'']] [''a''] 2 8 ''train'' (1, 0) w0 =
       Some (Inr (), \<lparr>dir_exists = True, files = Map.empty,
         log = [Spawn 0 [''a''], Mkdir, NewTokenizer, NewBuilder ''train_wudao_0'', Exit 0 (Inr ()),
                Spawn 1 [], Mkdir, NewTokenizer, Exit 1 (Inl RuntimeError)]\<rparr>)"
    by (simp add: prepare_eq [OF refl selected_files_one sp] worker_world_def worker_outcome_def
        worker_start_def w0_def worker_prefix_0 Let_def)
  with sp show ?thesis by simp
qed

text \<open>
  C3, as the code has it. Once the partition is made, the orchestrator starts the workers,
  waits for them and returns normally, whatever their outcomes: an outcome is only the
  exit of its own process and is not aggregated into the result of the run.
\<close>

theorem outcomes_not_aggregated:
  assumes "split = ''train''" and "selected_files globbed percentage = Inr fs"
    and "array_split fs num_processes = Inr gs"
  shows "\<exists>w'. prepare tok src globbed num_processes chunkSize split percentage w = Some (Inr (), w')
     \<and> exits (log w') = exits (log w)
          @ map (\<lambda>(i, g). (i, worker_outcome src chunkSize split g)) (zip [0..<length gs] gs)"
proof -
  let ?w' = "workers_world tok src chunkSize split 0 gs w"
  have "prepare tok src globbed num_processes chunkSize split percentage w = Some (Inr (), ?w')"
    using assms by (rule prepare_eq)
  moreover have "exits (log ?w') = exits (log w)
      @ map (\<lambda>(i, g). (i, worker_outcome src chunkSize split g)) (zip [0..<length gs] gs)"
    by (simp add: exits_workers_world)
  ultimately show ?thesis by blast
qed

theorem outcomes_not_aggregated_witness:
  "''train'' = ''train'' \<and> selected_files [''a''] (1, 0) = Inr [''a'']
   \<and> array_split [''a''] 1 = Inr [[''a'']]
   \<and> (\<exists>w'. prepare tok0 Map.empty [''a''] 1 8 ''train'' (1, 0) w0 = Some (Inr (), w')
         \<and> exits (log w') = [(0, Inl FileNotFoundError)])"
proof -
  have sp: "array_split [''a''] 1 = Inr [[''a'']]"
    by code_simp
  obtain w' where run: "prepare tok0 Map.empty [''a''] 1 8 ''train'' (1, 0) w0 = Some (Inr (), w')"
    and e: "exits (log w') = exits (log w0)
          @ map (\<lambda>(i, g). (i, worker_outcome Map.empty 8 ''train'' g)) (zip [0..<length [[''a'']]] [[''a'']])"
    using outcomes_not_aggregated [OF refl selected_files_one sp, of tok0 Map.empty 8 w0]
    by blast
  from e have "exits (log w') = [(0, Inl FileNotFoundError)]"
    by (simp add: w0_def worker_outcome_def)
  with run have "\<exists>w'. prepare tok0 Map.empty [''a''] 1 8 ''train'' (1, 0) w0 = Some (Inr (), w')
         \<and> exits (log w') = [(0, Inl FileNotFoundError)]"
    by blast
  with sp selected_files_one [of "''a''"] show ?thesis
    by (intro conjI) (rule refl, assumption+)
qed

text \<open>
  C3 as stated fails: the only worker fails on a file it cannot open, and the run still
  ends normally.
\<close>

theorem failed_worker_counterexample:
  "prepare tok0 Map.empty [''a''] 1 8 ''train'' (1, 0) w0 =
     Some (Inr (), \<lparr>dir_exists = True, files = Map.empty,
       log = [Spawn 0 [''a''], Mkdir, NewTokenizer, NewBuilder ''train_wudao_0'',
              Exit 0 (Inl FileNotFoundError)]\<rparr>)"
proof -
  have sp: "array_split [''a''] 1 = Inr [[''a'']]"
    by code_simp
  have run: "prepare tok0 Map.empty [''a''] 1 8 ''train'' (1, 0) w0 =
      Some (Inr (), workers_world tok0 Map.empty 8 ''train'' 0 [[''a'']] w0)"
    by (rule prepare_eq [OF refl selected_files_one sp])
  have "length (worker_stream tok0 Map.empty [''a'']) div nat 8 = 0"
    by (simp add: worker_stream_def stream_def)
  then show ?thesis
    unfolding run
    by (simp add: worker_world_def worker_outcome_def worker_start_def w0_def worker_prefix_0 Let_def)
qed

section \<open>Claims about the chunk builder and the worker's output\<close>

lemma concat_chunks:
  "n * cs \<le> length S \<Longrightarrow> concat (map (chunk cs S) [0..<n]) = take (n * cs) S"
proof (induction n)
  case 0
  then show ?case by simp
next
  case (Suc n)
  then have "concat (map (chunk cs S) [0..<n]) = take (n * cs) S" by simp
  moreover have "take (Suc n * cs) S = take (n * cs) S @ take cs (drop (n * cs) S)"
    using take_add [of "n * cs" cs S] by (simp add: add.commute)
  moreover have "chunk cs S n = take cs (drop (n * cs) S)"
    by (simp add: chunk_def)
  ultimately show ?case by simp
qed

lemma length_chunk:
  assumes "k < n" and "n * cs \<le> length S"
  shows "length (chunk cs S k) = cs"
proof -
  from assms(1) have "Suc k * cs \<le> n * cs"
    by (intro mult_le_mono1) simp
  with assms(2) have "k * cs + cs \<le> length S" by simp
  then show ?thesis by (simp add: chunk_def)
qed

lemma files_put_chunks_in:
  assumes "k < n"
  shows "files (put_chunks b S n w) (shard_name (name_prefix b) (shard_index b + k))
    = Some \<lparr>hdr_dtype_width = dtype_width b, hdr_chunk_size = chunk_size b,
            body = chunk (chunk_size b) S k\<rparr>"
  using assms by (simp add: put_chunks_def shard_name_def)

lemma files_put_chunks_out:
  assumes "nm \<notin> shard_name (name_prefix b) ` {shard_index b..<shard_index b + n}"
  shows "files (put_chunks b S n w) nm = files w nm"
proof -
  have "\<not> (fst nm = name_prefix b \<and> shard_index b \<le> snd nm \<and> snd nm < shard_index b + n)"
  proof
    assume a: "fst nm = name_prefix b \<and> shard_index b \<le> snd nm \<and> snd nm < shard_index b + n"
    then have "nm = shard_name (name_prefix b) (snd nm)"
      by (cases nm) (simp add: shard_name_def)
    with a assms show False by auto
  qed
  then show ?thesis by (auto simp: put_chunks_def)
qed

lemma written_put_chunks:
  "written (log (put_chunks b S n w))
    = written (log w) @ map (\<lambda>k. shard_name (name_prefix b) (shard_index b + k)) [0..<n]"
  by (simp add: put_chunks_def written_append written_WriteShard)

lemma shard_bodies_put_chunks:
  assumes "shard_index b = 0"
  shows "shard_bodies (put_chunks b S n w) (name_prefix b) n = map (chunk (chunk_size b) S) [0..<n]"
  using assms files_put_chunks_in [of _ n b S w] by (simp add: shard_bodies_def)

text \<open>
  C1. A builder comes from \<open>new\<close>, so its chunk size is positive. After any sequence of
  \<open>append\<close> calls, with \<open>T\<close> the length of the separator-interleaved stream of the
  documents (one separator and its tokens for each document), every call has returned;
  exactly \<open>T div chunkSize\<close> shards were written, those of index \<open>0\<close> to \<open>T div chunkSize - 1\<close> of the builder's prefix, each with a body of
  \<open>chunkSize\<close> tokens, and no other file changed; the bodies concatenated in index order
  are the first \<open>(T div chunkSize) * chunkSize\<close> tokens of the stream; the buffer holds the
  remaining \<open>T mod chunkSize\<close> tokens, and \<open>finalize\<close> drops them, writing nothing.
\<close>

lemma length_stream: "length (stream sep docs) = (\<Sum>d\<leftarrow>docs. 1 + length d)"
  by (induction docs) (simp_all add: stream_def)

theorem packing:
  assumes new: "builder_new p c sep v = Inr b0"
  shows "length (stream sep docs) = (\<Sum>d\<leftarrow>docs. 1 + length d)
    \<and> (\<exists>b w'. append_all docs b0 w = Some (b, w')
    \<and> written (log w') = written (log w)
         @ map (shard_name p) [0..<length (stream sep docs) div nat c]
    \<and> (\<forall>k < length (stream sep docs) div nat c.
          \<exists>sh. files w' (shard_name p k) = Some sh \<and> length (body sh) = nat c)
    \<and> (\<forall>nm. nm \<notin> shard_name p ` {0..<length (stream sep docs) div nat c}
          \<longrightarrow> files w' nm = files w nm)
    \<and> concat (shard_bodies w' p (length (stream sep docs) div nat c))
         = take (length (stream sep docs) div nat c * nat c) (stream sep docs)
    \<and> shard_index b = length (stream sep docs) div nat c
    \<and> buffer b = drop (length (stream sep docs) div nat c * nat c) (stream sep docs)
    \<and> length (buffer b) = length (stream sep docs) mod nat c
    \<and> finalize b = (b\<lparr>buffer := []\<rparr>, length (stream sep docs) div nat c,
                      length (stream sep docs) div nat c * nat c))"
proof -
  let ?S = "stream sep docs" and ?cs = "nat c"
  let ?n = "length ?S div ?cs"
  from new have c: "0 < c"
    by (auto simp: builder_new_def split: if_splits)
  from new c have b0: "name_prefix b0 = p" "chunk_size b0 = ?cs" "sep_token b0 = sep"
    "buffer b0 = []" "shard_index b0 = 0" "total_tokens_written b0 = 0"
    by (auto simp: builder_new_def)
  let ?b = "advanced b0 ?S ?n" and ?w' = "put_chunks b0 ?S ?n w"
  have le: "?n * ?cs \<le> length ?S"
    by (rule div_times_less_eq_dividend)
  have run: "append_all docs b0 w = Some (?b, ?w')"
    using append_all_closed [of b0 docs w] c by (simp add: b0)
  have wr: "written (log ?w') = written (log w) @ map (shard_name p) [0..<?n]"
    by (simp add: written_put_chunks b0)
  have full: "\<exists>sh. files ?w' (shard_name p k) = Some sh \<and> length (body sh) = ?cs" if "k < ?n" for k
    using files_put_chunks_in [OF that, of b0 ?S w] length_chunk [OF that le]
    by (simp add: b0)
  have rest: "files ?w' nm = files w nm" if "nm \<notin> shard_name p ` {0..<?n}" for nm
    using files_put_chunks_out [of nm b0 ?n ?S w] that by (simp add: b0)
  have cat: "concat (shard_bodies ?w' p ?n) = take (?n * ?cs) ?S"
    using shard_bodies_put_chunks [of b0 ?S ?n w] concat_chunks [OF le] by (simp add: b0)
  have idx: "shard_index ?b = ?n" and buf: "buffer ?b = drop (?n * ?cs) ?S"
    by (simp_all add: advanced_def b0)
  have len: "length (buffer ?b) = length ?S mod ?cs"
    unfolding buf by (simp add: minus_div_mult_eq_mod)
  have fin: "finalize ?b = (?b\<lparr>buffer := []\<rparr>, ?n, ?n * ?cs)"
    by (simp add: finalize_def advanced_def b0)
  from run wr full rest cat idx buf len fin
  have "\<exists>b w'. append_all docs b0 w = Some (b, w')
    \<and> written (log w') = written (log w) @ map (shard_name p) [0..<?n]
    \<and> (\<forall>k < ?n. \<exists>sh. files w' (shard_name p k) = Some sh \<and> length (body sh) = ?cs)
    \<and> (\<forall>nm. nm \<notin> shard_name p ` {0..<?n} \<longrightarrow> files w' nm = files w nm)
    \<and> concat (shard_bodies w' p ?n) = take (?n * ?cs) ?S
    \<and> shard_index b = ?n
    \<and> buffer b = drop (?n * ?cs) ?S
    \<and> length (buffer b) = length ?S mod ?cs
    \<and> finalize b = (b\<lparr>buffer := []\<rparr>, ?n, ?n * ?cs)"
    by blast
  with length_stream [of sep docs] show ?thesis
    by (rule conjI)
qed

text \<open>
  The documents \<open>[5,6,7]\<close>, \<open>[8]\<close>, \<open>[9,10]\<close> with separator \<open>1\<close> and chunk size \<open>4\<close>: two
  shards, \<open>[1,5,6,7]\<close> and \<open>[1,8,1,9]\<close>; \<open>[10]\<close> is left and dropped.
\<close>

theorem packing_witness:
  "builder_new ''p'' 4 1 32000 =
     Inr \<lparr>name_prefix = ''p'', chunk_size = 4, sep_token = 1, dtype_width = 2, buffer = [],
          shard_index = 0, total_tokens_written = 0\<rparr>
   \<and> (\<exists>b w'. append_all [[5, 6, 7], [8], [9, 10]]
          \<lparr>name_prefix = ''p'', chunk_size = 4, sep_token = 1, dtype_width = 2, buffer = [],
           shard_index = 0, total_tokens_written = 0\<rparr> w0 = Some (b, w')
        \<and> written (log w') = [shard_name ''p'' 0, shard_name ''p'' 1]
        \<and> concat (shard_bodies w' ''p'' 2) = [1, 5, 6, 7, 1, 8, 1, 9]
        \<and> shard_index b = 2
        \<and> buffer b = [10]
        \<and> finalize b = (b\<lparr>buffer := []\<rparr>, 2, 8))"
proof -
  let ?b0 = "\<lparr>name_prefix = ''p'', chunk_size = 4, sep_token = 1, dtype_width = 2, buffer = [],
          shard_index = 0, total_tokens_written = 0\<rparr>"
  have new: "builder_new ''p'' 4 1 32000 = Inr ?b0"
    by (simp add: builder_new_def)
  have S: "stream 1 [[5, 6, 7], [8], [9, 10]] = [1, 5, 6, 7, 1, 8, 1, 9, 10]"
    by (simp add: stream_def)
  have n: "length [1, 5, 6, 7, 1, 8, 1, 9, 10 :: int] div nat 4 = 2"
    by simp
  have u: "[0..<2] = [0, 1::nat]"
    by code_simp
  have "\<exists>b w'. append_all [[5, 6, 7], [8], [9, 10]] ?b0 w0 = Some (b, w')
        \<and> written (log w') = [shard_name ''p'' 0, shard_name ''p'' 1]
        \<and> concat (shard_bodies w' ''p'' 2) = [1, 5, 6, 7, 1, 8, 1, 9]
        \<and> shard_index b = 2
        \<and> buffer b = [10]
        \<and> finalize b = (b\<lparr>buffer := []\<rparr>, 2, 8)"
    using packing [OF new, of "[[5, 6, 7], [8], [9, 10]]" w0]
    unfolding S n u by (auto simp: w0_def)
  with new show ?thesis by blast
qed

text \<open>
  C6. A worker that has read every file of its non-empty group, with a positive chunk
  size, ends normally and has written exactly the full chunks of its token stream: the
  shards \<open>0\<close> to \<open>T div chunkSize - 1\<close> of its prefix, each body a block of \<open>chunkSize\<close>
  consecutive tokens of the stream. No other file of the destination has changed, so
  there is no shard after the last full chunk and none that is partial or padded; the
  last \<open>T mod chunkSize\<close> tokens, fewer than \<open>chunkSize\<close>, are in no shard.
\<close>

theorem remainder_discarded:
  assumes "fs \<noteq> []" and "0 < chunkSize" and "list_all (\<lambda>f. src f \<noteq> None) fs"
  shows "\<exists>w'. prepare_full tok src chunkSize split fs i w = Some (Inr (), w')
    \<and> written (drop (length (log w)) (log w'))
         = map (shard_name (worker_prefix split i))
             [0..<length (worker_stream tok src fs) div nat chunkSize]
    \<and> (\<forall>k < length (worker_stream tok src fs) div nat chunkSize.
          \<exists>sh. files w' (shard_name (worker_prefix split i) k) = Some sh
             \<and> body sh = chunk (nat chunkSize) (worker_stream tok src fs) k
             \<and> length (body sh) = nat chunkSize)
    \<and> (\<forall>nm. nm \<notin> shard_name (worker_prefix split i)
                    ` {0..<length (worker_stream tok src fs) div nat chunkSize}
          \<longrightarrow> files w' nm = files w nm)
    \<and> concat (shard_bodies w' (worker_prefix split i)
                 (length (worker_stream tok src fs) div nat chunkSize))
         = take (length (worker_stream tok src fs) div nat chunkSize * nat chunkSize)
             (worker_stream tok src fs)
    \<and> length (drop (length (worker_stream tok src fs) div nat chunkSize * nat chunkSize)
                 (worker_stream tok src fs))
         = length (worker_stream tok src fs) mod nat chunkSize
    \<and> length (worker_stream tok src fs) mod nat chunkSize < nat chunkSize"
proof -
  let ?S = "worker_stream tok src fs" and ?cs = "nat chunkSize"
  let ?n = "length ?S div ?cs" and ?p = "worker_prefix split i"
  let ?b = "fresh_builder tok chunkSize split i"
  let ?w' = "put_chunks ?b ?S ?n (worker_start split i w)"
  have b: "name_prefix ?b = ?p" "chunk_size ?b = ?cs" "shard_index ?b = 0"
    by (simp_all add: fresh_builder_def)
  have le: "?n * ?cs \<le> length ?S"
    by (rule div_times_less_eq_dividend)
  have run: "prepare_full tok src chunkSize split fs i w = Some (Inr (), ?w')"
    using assms by (simp add: prepare_full_closed)
  have wr: "written (drop (length (log w)) (log ?w')) = map (shard_name ?p) [0..<?n]"
    by (simp add: put_chunks_def worker_start_def written_WriteShard b)
  have full: "\<exists>sh. files ?w' (shard_name ?p k) = Some sh \<and> body sh = chunk ?cs ?S k
      \<and> length (body sh) = ?cs" if "k < ?n" for k
    using files_put_chunks_in [OF that, of ?b ?S "worker_start split i w"] length_chunk [OF that le]
    by (simp add: b)
  have rest: "files ?w' nm = files w nm" if "nm \<notin> shard_name ?p ` {0..<?n}" for nm
    using files_put_chunks_out [of nm ?b ?n ?S "worker_start split i w"] that
    by (simp add: b worker_start_def)
  have cat: "concat (shard_bodies ?w' ?p ?n) = take (?n * ?cs) ?S"
    using shard_bodies_put_chunks [of ?b ?S ?n "worker_start split i w"] concat_chunks [OF le]
    by (simp add: b)
  have len: "length (drop (?n * ?cs) ?S) = length ?S mod ?cs"
    by (simp add: minus_div_mult_eq_mod)
  have lt: "length ?S mod ?cs < ?cs"
    using assms(2) by simp
  from run wr full rest cat len lt show ?thesis
    by blast
qed

text \<open>
  One file with the documents \<open>hi\<close> and \<open>x\<close>, chunk size \<open>4\<close>: the stream has five tokens,
  one shard is written and the token \<open>120\<close> is dropped.
\<close>

theorem remainder_discarded_witness:
  "[''a''] \<noteq> [] \<and> (0::int) < 4 \<and> list_all (\<lambda>f. [''a'' \<mapsto> [''hi'', ''x'']] f \<noteq> None) [''a'']
   \<and> worker_stream tok0 [''a'' \<mapsto> [''hi'', ''x'']] [''a''] = [1, 104, 105, 1, 120]
   \<and> (\<exists>w'. prepare_full tok0 [''a'' \<mapsto> [''hi'', ''x'']] 4 ''train'' [''a''] 0 w0 = Some (Inr (), w')
        \<and> written (log w') = [shard_name ''train_wudao_0'' 0]
        \<and> concat (shard_bodies w' ''train_wudao_0'' 1) = [1, 104, 105, 1]
        \<and> files w' (shard_name ''train_wudao_0'' 1) = None)"
proof -
  let ?src = "[''a'' \<mapsto> [''hi'', ''x'']]"
  have h: "[''a''] \<noteq> []" "(0::int) < 4" "list_all (\<lambda>f. ?src f \<noteq> None) [''a'']"
    by simp_all
  have S: "worker_stream tok0 ?src [''a''] = [1, 104, 105, 1, 120]"
    by (simp add: worker_stream_def stream_def tok0_def)
  have n: "length [1, 104, 105, 1, 120 :: int] div nat 4 = 1"
    by simp
  have u: "[0..<1] = [0::nat]" "{0..<1} = {0::nat}"
    by auto
  have out: "shard_name ''train_wudao_0'' 1 \<notin> shard_name ''train_wudao_0'' ` {0}"
    by (simp add: shard_name_def)
  from remainder_discarded [OF h, of tok0 "''train''" 0 w0] obtain w' where
    run: "prepare_full tok0 ?src 4 ''train'' [''a''] 0 w0 = Some (Inr (), w')" and
    wr: "written (drop (length (log w0)) (log w'))
         = map (shard_name (worker_prefix ''train'' 0))
             [0..<length (worker_stream tok0 ?src [''a'']) div nat 4]" and
    rest: "\<forall>nm. nm \<notin> shard_name (worker_prefix ''train'' 0)
                    ` {0..<length (worker_stream tok0 ?src [''a'']) div nat 4}
          \<longrightarrow> files w' nm = files w0 nm" and
    cat: "concat (shard_bodies w' (worker_prefix ''train'' 0)
                 (length (worker_stream tok0 ?src [''a'']) div nat 4))
         = take (length (worker_stream tok0 ?src [''a'']) div nat 4 * nat 4)
             (worker_stream tok0 ?src [''a''])"
    by blast
  from wr have "written (log w') = [shard_name ''train_wudao_0'' 0]"
    unfolding S n worker_prefix_0 by (simp add: w0_def)
  moreover from cat have "concat (shard_bodies w' ''train_wudao_0'' 1) = [1, 104, 105, 1]"
    unfolding S n worker_prefix_0 by simp
  moreover have "files w' (shard_name ''train_wudao_0'' 1) = None"
  proof -
    from rest out have "files w' (shard_name ''train_wudao_0'' 1) = files w0 (shard_name ''train_wudao_0'' 1)"
      unfolding S n u worker_prefix_0 by blast
    then show ?thesis by (simp add: w0_def)
  qed
  ultimately have "\<exists>w'. prepare_full tok0 ?src 4 ''train'' [''a''] 0 w0 = Some (Inr (), w')
        \<and> written (log w') = [shard_name ''train_wudao_0'' 0]
        \<and> concat (shard_bodies w' ''train_wudao_0'' 1) = [1, 104, 105, 1]
        \<and> files w' (shard_name ''train_wudao_0'' 1) = None"
    using run by blast
  with h S show ?thesis by blast
qed

section \<open>Claims about the name prefixes\<close>

lemma digit_inj:
  assumes "d < 10" "e < 10" "digit d = digit e"
  shows "d = e"
proof -
  have "distinct ''0123456789''" by simp
  moreover have "d < length ''0123456789''" "e < length ''0123456789''"
    using assms by simp_all
  ultimately show ?thesis
    using assms(3) unfolding digit_def by (simp only: nth_eq_iff_index_eq)
qed

lemma str_nat_large: "10 \<le> n \<Longrightarrow> str_nat n = str_nat (n div 10) @ [digit (n mod 10)]"
  by (simp add: str_nat.simps [of n])

lemma str_nat_not_Nil: "str_nat n \<noteq> []"
  by (subst str_nat.simps) simp

lemma str_nat_inj: "str_nat n = str_nat m \<Longrightarrow> n = m"
proof (induction n arbitrary: m rule: less_induct)
  case (less n)
  consider "n < 10" "m < 10" | "n < 10" "10 \<le> m" | "10 \<le> n" "m < 10" | "10 \<le> n" "10 \<le> m"
    by linarith
  then show ?case
  proof cases
    case 1
    with less.prems show ?thesis
      by (simp add: str_nat_small digit_inj)
  next
    case 2
    with less.prems have "[digit n] = str_nat (m div 10) @ [digit (m mod 10)]"
      by (simp add: str_nat_small str_nat_large)
    then show ?thesis
      using str_nat_not_Nil [of "m div 10"] by (cases "str_nat (m div 10)") simp_all
  next
    case 3
    with less.prems have "str_nat (n div 10) @ [digit (n mod 10)] = [digit m]"
      by (simp add: str_nat_small str_nat_large)
    then show ?thesis
      using str_nat_not_Nil [of "n div 10"] by (cases "str_nat (n div 10)") simp_all
  next
    case 4
    with less.prems have "str_nat (n div 10) @ [digit (n mod 10)] = str_nat (m div 10) @ [digit (m mod 10)]"
      by (simp add: str_nat_large)
    then have a: "str_nat (n div 10) = str_nat (m div 10)" and b: "digit (n mod 10) = digit (m mod 10)"
      by simp_all
    from 4 have "n div 10 < n" by simp
    from less.IH [OF this a] have "n div 10 = m div 10" .
    moreover have "n mod 10 = m mod 10"
      using b by (intro digit_inj) simp_all
    ultimately show ?thesis
      by (metis div_mult_mod_eq)
  qed
qed

lemma worker_prefix_inj: "worker_prefix split i = worker_prefix split j \<Longrightarrow> i = j"
  by (simp add: worker_prefix_def str_nat_inj)

lemma new_log_worker_world:
  "drop (length (log w)) (log (worker_world tok src c split fs i w)) =
     (if fs = [] \<or> c \<le> 0 then [Mkdir, NewTokenizer]
      else [Mkdir, NewTokenizer, NewBuilder (worker_prefix split i)]
           @ map (\<lambda>k. WriteShard (shard_name (worker_prefix split i) k))
               [0..<length (worker_stream tok src fs) div nat c])"
  by (simp add: worker_world_def put_chunks_def worker_start_def fresh_builder_def)

text \<open>
  C5. Worker \<open>i\<close> constructs its builder, when it constructs one, with the prefix made of
  the split, \<open>_wudao_\<close> and the decimal digits of \<open>i\<close>; different worker indices give
  different prefixes. A shard is named by the pair of the builder's prefix and the shard
  index, so builders with different prefixes never name the same shard, whatever the
  indices; the shards written by two workers with different indices are disjoint.
\<close>

theorem prefixes_isolate_workers:
  assumes "i \<noteq> j"
  shows "worker_prefix split i \<noteq> worker_prefix split j
    \<and> (\<forall>p q m n. p \<noteq> q \<longrightarrow> shard_name p m \<noteq> shard_name q n)
    \<and> (\<exists>r w' r' v'.
          prepare_full tok src c split fs i w = Some (r, w')
        \<and> prepare_full tok' src' c' split fs' j v = Some (r', v')
        \<and> (\<forall>p. NewBuilder p \<in> set (drop (length (log w)) (log w')) \<longrightarrow> p = worker_prefix split i)
        \<and> (\<forall>p. NewBuilder p \<in> set (drop (length (log v)) (log v')) \<longrightarrow> p = worker_prefix split j)
        \<and> (fs \<noteq> [] \<and> 0 < c \<longrightarrow> NewBuilder (worker_prefix split i) \<in> set (drop (length (log w)) (log w')))
        \<and> (\<forall>nm \<in> set (written (drop (length (log w)) (log w'))). fst nm = worker_prefix split i)
        \<and> (\<forall>nm \<in> set (written (drop (length (log v)) (log v'))). fst nm = worker_prefix split j)
        \<and> set (written (drop (length (log w)) (log w')))
            \<inter> set (written (drop (length (log v)) (log v'))) = {})"
proof -
  let ?w' = "worker_world tok src c split fs i w" and ?v' = "worker_world tok' src' c' split fs' j v"
  have ne: "worker_prefix split i \<noteq> worker_prefix split j"
    using assms worker_prefix_inj by blast
  have names: "\<forall>p q m n. p \<noteq> q \<longrightarrow> shard_name p m \<noteq> shard_name q n"
    by (simp add: shard_name_def)
  have run: "prepare_full tok src c split fs i w = Some (worker_outcome src c split fs, ?w')"
    "prepare_full tok' src' c' split fs' j v = Some (worker_outcome src' c' split fs', ?v')"
    by (rule prepare_full_eq)+
  have nb: "\<forall>p. NewBuilder p \<in> set (drop (length (log w)) (log ?w')) \<longrightarrow> p = worker_prefix split i"
    "\<forall>p. NewBuilder p \<in> set (drop (length (log v)) (log ?v')) \<longrightarrow> p = worker_prefix split j"
    by (auto simp: new_log_worker_world)
  have nb': "fs \<noteq> [] \<and> 0 < c \<longrightarrow> NewBuilder (worker_prefix split i) \<in> set (drop (length (log w)) (log ?w'))"
    by (simp add: new_log_worker_world)
  have wr: "\<forall>nm \<in> set (written (drop (length (log w)) (log ?w'))). fst nm = worker_prefix split i"
    "\<forall>nm \<in> set (written (drop (length (log v)) (log ?v'))). fst nm = worker_prefix split j"
    by (auto simp: new_log_worker_world written_WriteShard shard_name_def)
  with ne have "set (written (drop (length (log w)) (log ?w')))
            \<inter> set (written (drop (length (log v)) (log ?v'))) = {}"
    by fastforce
  with ne names run nb nb' wr show ?thesis
    by blast
qed

text \<open>Workers \<open>0\<close> and \<open>1\<close> on the same file write under different names.\<close>

theorem prefixes_isolate_workers_witness:
  "(0::nat) \<noteq> 1
   \<and> worker_prefix ''train'' 0 = ''train_wudao_0''
   \<and> worker_prefix ''train'' 1 = ''train_wudao_1''
   \<and> shard_name (worker_prefix ''train'' 0) 0 \<noteq> shard_name (worker_prefix ''train'' 1) 0
   \<and> (\<exists>r w' r' v'.
          prepare_full tok0 [''a'' \<mapsto> [''hi'', ''x'']] 4 ''train'' [''a''] 0 w0 = Some (r, w')
        \<and> prepare_full tok0 [''a'' \<mapsto> [''hi'', ''x'']] 4 ''train'' [''a''] 1 w0 = Some (r', v')
        \<and> NewBuilder ''train_wudao_0'' \<in> set (log w')
        \<and> set (written (log w')) \<inter> set (written (log v')) = {})"
proof -
  have ne: "(0::nat) \<noteq> 1" by simp
  note t = prefixes_isolate_workers [OF ne, where split = "''train''" and tok = tok0
      and src = "[''a'' \<mapsto> [''hi'', ''x'']]" and c = 4 and fs = "[''a'']" and w = w0
      and tok' = tok0 and src' = "[''a'' \<mapsto> [''hi'', ''x'']]" and c' = 4 and fs' = "[''a'']"
      and v = w0]
  from t have sn: "shard_name (worker_prefix ''train'' 0) 0 \<noteq> shard_name (worker_prefix ''train'' 1) 0"
    by blast
  from t obtain r w' r' v' where
    run1: "prepare_full tok0 [''a'' \<mapsto> [''hi'', ''x'']] 4 ''train'' [''a''] 0 w0 = Some (r, w')" and
    run2: "prepare_full tok0 [''a'' \<mapsto> [''hi'', ''x'']] 4 ''train'' [''a''] 1 w0 = Some (r', v')" and
    nb: "[''a''] \<noteq> [] \<and> (0::int) < 4
      \<longrightarrow> NewBuilder (worker_prefix ''train'' 0) \<in> set (drop (length (log w0)) (log w'))" and
    dj: "set (written (drop (length (log w0)) (log w')))
            \<inter> set (written (drop (length (log w0)) (log v'))) = {}"
    by blast
  have l0: "length (log w0) = 0"
    by (simp add: w0_def)
  from nb have "NewBuilder ''train_wudao_0'' \<in> set (log w')"
    by (simp add: l0 worker_prefix_0)
  moreover from dj have "set (written (log w')) \<inter> set (written (log v')) = {}"
    by (simp add: l0)
  ultimately have "\<exists>r w' r' v'.
          prepare_full tok0 [''a'' \<mapsto> [''hi'', ''x'']] 4 ''train'' [''a''] 0 w0 = Some (r, w')
        \<and> prepare_full tok0 [''a'' \<mapsto> [''hi'', ''x'']] 4 ''train'' [''a''] 1 w0 = Some (r', v')
        \<and> NewBuilder ''train_wudao_0'' \<in> set (log w')
        \<and> set (written (log w')) \<inter> set (written (log v')) = {}"
    using run1 run2 by blast
  with ne sn worker_prefix_0 worker_prefix_1 show ?thesis
    by (intro conjI) assumption+
qed

section \<open>Claims about the sampling of the file list\<close>

lemma float_val_nonneg: "0 \<le> float_val p \<longleftrightarrow> 0 \<le> fst p"
proof -
  have "(0::rat) < power_int 2 (snd p)"
    by (simp add: power_int_def)
  then show ?thesis
    by (simp add: float_val_def zero_le_mult_iff not_le [symmetric] mult_le_0_iff)
qed

lemma round_double_nonneg:
  assumes "round_double (m, e) = Some (m', e')" and "0 \<le> m"
  shows "0 \<le> m'"
proof (cases "m = 0")
  case True
  with assms show ?thesis by (simp add: round_double_def)
next
  case False
  with assms(2) have m: "0 < m" by simp
  then have d: "0 \<le> \<bar>m\<bar> div 2 ^ s" for s :: nat
    by (simp add: pos_imp_zdiv_nonneg_iff)
  from assms(1) False m show ?thesis
    using d by (auto simp: round_double_def Let_def split: if_splits)
qed

lemma py_int_nonneg:
  assumes "py_int (Some (m, e)) = Inr k" and "0 \<le> m"
  shows "0 \<le> k"
proof -
  have "0 \<le> \<bar>m\<bar> div 2 ^ s" for s :: nat
    by (simp add: pos_imp_zdiv_nonneg_iff)
  with assms show ?thesis
    by (auto simp: py_int_def sgn_if split: if_splits)
qed

lemma selected_files_prefix:
  assumes "0 \<le> float_val percentage" and "selected_files globbed percentage = Inr fs"
  shows "\<exists>k. py_int (float_mul (float_of_nat (length globbed)) percentage) = Inr (int k)
           \<and> fs = take k globbed"
proof -
  obtain pm pe where p: "percentage = (pm, pe)" by (cases percentage)
  with assms(1) have pm: "0 \<le> pm" by (simp add: float_val_nonneg)
  from assms(2) obtain j where j: "py_int (float_mul (float_of_nat (length globbed)) percentage) = Inr j"
    and fs: "fs = py_slice_to globbed j"
    by (auto simp: selected_files_def split: sum.splits)
  from j obtain a where a: "float_mul (float_of_nat (length globbed)) percentage = Some a"
    by (cases "float_mul (float_of_nat (length globbed)) percentage") (simp_all add: py_int_def)
  then obtain x where x: "float_of_nat (length globbed) = Some x"
    and r: "round_double (fst x * pm, snd x + pe) = Some a"
    by (cases "float_of_nat (length globbed)") (simp_all add: float_mul_def p)
  from x have "0 \<le> fst x"
    using round_double_nonneg [of "int (length globbed)" 0 "fst x" "snd x"]
    by (simp add: float_of_nat_def)
  with pm have "0 \<le> fst x * pm" by simp
  with r have "0 \<le> fst a"
    using round_double_nonneg [of "fst x * pm" "snd x + pe" "fst a" "snd a"] by simp
  with j a have "0 \<le> j"
    using py_int_nonneg [of "fst a" "snd a" j] by simp
  then have "j = int (nat j)" "py_slice_to globbed j = take (nat j) globbed"
    by (simp_all add: py_slice_to_def)
  with j fs show ?thesis by metis
qed

lemma bit_length_10: "bit_length 10 = 4"
  by (simp add: bit_length.simps)

lemma round_double_10: "round_double (10, 0) = Some (10, 0)"
  by (simp add: round_double_def bit_length_10)

lemma round_double_seven: "round_double (31525197391593470, - 52) = Some (7881299347898368, - 50)"
proof -
  have "bit_length 31525197391593470 = 55" "bit_length 7881299347898368 = 53"
    by (simp_all add: bit_length.simps)
  then show ?thesis
    by (simp add: round_double_def Let_def)
qed

lemma selected_files_seven:
  "selected_files [f0, f1, f2, f3, f4, f5, f6, f7, f8, f9] (3152519739159347, - 52)
     = Inr [f0, f1, f2, f3, f4, f5, f6]"
  by (simp add: selected_files_def float_of_nat_def float_mul_def round_double_10
      round_double_seven py_int_def py_slice_to_def)

lemma round_double_minus_2: "round_double (- 2, - 1) = Some (- 2, - 1)"
  by (simp add: round_double_def bit_length_2)

lemma round_double_100: "round_double (100, 0) = Some (100, 0)"
proof -
  have "bit_length 100 = 7" by (simp add: bit_length.simps)
  then show ?thesis by (simp add: round_double_def)
qed

lemma round_double_29: "round_double (522417556774977500, - 54) = Some (8162774324609023, - 48)"
proof -
  have "bit_length 522417556774977500 = 59" "bit_length 8162774324609023 = 53"
    by (simp_all add: bit_length.simps)
  then show ?thesis
    by (simp add: round_double_def Let_def)
qed

lemma selected_files_29:
  "length xs = 100 \<Longrightarrow> selected_files xs (5224175567749775, - 54) = Inr (take 28 xs)"
  by (simp add: selected_files_def float_of_nat_def float_mul_def round_double_100
      round_double_29 py_int_def py_slice_to_def)

text \<open>
  C8, as the code has it. For a list of \<open>N\<close> files and a finite percentage \<open>p \<ge> 0\<close> for
  which the selection succeeds, the files handed to the workers are exactly the first \<open>k\<close>
  files of the list, in their order, where \<open>k\<close> is \<open>int(N * p)\<close> as Python computes it: the
  product rounded to a double, then truncated toward zero.
\<close>

theorem sampled_prefix:
  assumes "0 \<le> float_val percentage" and "split = ''train''" and "0 < num_processes"
    and "selected_files globbed percentage = Inr fs"
  shows "\<exists>k gs w'.
      py_int (float_mul (float_of_nat (length globbed)) percentage) = Inr (int k)
    \<and> fs = take k globbed
    \<and> array_split fs num_processes = Inr gs
    \<and> prepare tok src globbed num_processes chunkSize split percentage w = Some (Inr (), w')
    \<and> map snd (drop (length (spawned (log w))) (spawned (log w'))) = gs
    \<and> concat gs = take k globbed"
proof -
  obtain k where k: "py_int (float_mul (float_of_nat (length globbed)) percentage) = Inr (int k)"
    "fs = take k globbed"
    using selected_files_prefix [OF assms(1,4)] by blast
  obtain gs where gs: "array_split fs num_processes = Inr gs"
    using assms(3) by (simp add: array_split_def Let_def)
  have cat: "concat gs = take k globbed"
    using array_split_concat [OF assms(3) gs] k(2) by simp
  let ?w' = "workers_world tok src chunkSize split 0 gs w"
  have run: "prepare tok src globbed num_processes chunkSize split percentage w = Some (Inr (), ?w')"
    using assms(2,4) gs by (rule prepare_eq)
  have "map snd (drop (length (spawned (log w))) (spawned (log ?w'))) = gs"
    by (simp add: spawned_workers_world)
  with k gs run cat show ?thesis by blast
qed

text \<open>Ten files and the double written \<open>0.7\<close>: the first seven files go to the workers.\<close>

theorem sampled_prefix_witness:
  "0 \<le> float_val (3152519739159347, - 52) \<and> ''train'' = ''train'' \<and> (0::nat) < 2
   \<and> selected_files [''f0'', ''f1'', ''f2'', ''f3'', ''f4'', ''f5'', ''f6'', ''f7'', ''f8'', ''f9'']
        (3152519739159347, - 52)
      = Inr [''f0'', ''f1'', ''f2'', ''f3'', ''f4'', ''f5'', ''f6'']
   \<and> (\<exists>gs w'.
        prepare tok0 Map.empty
          [''f0'', ''f1'', ''f2'', ''f3'', ''f4'', ''f5'', ''f6'', ''f7'', ''f8'', ''f9''] 2 8 ''train''
          (3152519739159347, - 52) w0 = Some (Inr (), w')
      \<and> map snd (spawned (log w')) = gs
      \<and> concat gs = [''f0'', ''f1'', ''f2'', ''f3'', ''f4'', ''f5'', ''f6''])"
proof -
  let ?xs = "[''f0'', ''f1'', ''f2'', ''f3'', ''f4'', ''f5'', ''f6'', ''f7'', ''f8'', ''f9'']"
  let ?p = "(3152519739159347, - 52) :: pyfloat"
  have p: "0 \<le> float_val ?p"
    by (simp add: float_val_nonneg)
  have n: "(0::nat) < 2"
    by simp
  have sel: "selected_files ?xs ?p = Inr [''f0'', ''f1'', ''f2'', ''f3'', ''f4'', ''f5'', ''f6'']"
    by (rule selected_files_seven)
  from sampled_prefix [OF p refl n sel, of tok0 Map.empty 8 w0] obtain k gs w' where
    fs: "[''f0'', ''f1'', ''f2'', ''f3'', ''f4'', ''f5'', ''f6''] = take k ?xs" and
    run: "prepare tok0 Map.empty ?xs 2 8 ''train'' ?p w0 = Some (Inr (), w')" and
    sp: "map snd (drop (length (spawned (log w0))) (spawned (log w'))) = gs" and
    cat: "concat gs = take k ?xs"
    by blast
  from sp have "map snd (spawned (log w')) = gs"
    by (simp add: w0_def)
  moreover from cat fs have "concat gs = [''f0'', ''f1'', ''f2'', ''f3'', ''f4'', ''f5'', ''f6'']"
    by simp
  ultimately have "\<exists>gs w'. prepare tok0 Map.empty ?xs 2 8 ''train'' ?p w0 = Some (Inr (), w')
      \<and> map snd (spawned (log w')) = gs
      \<and> concat gs = [''f0'', ''f1'', ''f2'', ''f3'', ''f4'', ''f5'', ''f6'']"
    using run by blast
  with p n sel show ?thesis
    by (intro conjI) (rule refl | assumption)+
qed

text \<open>
  C8 as stated fails. With ten files and the double written \<open>0.7\<close>, which is slightly
  below \<open>7 / 10\<close>, the product rounds to \<open>7.0\<close> and seven files are taken, while
  \<open>\<lfloor>N * p\<rfloor> = 6\<close>. With a hundred files and the double written \<open>0.29\<close>, the nearest to
  \<open>29 / 100\<close>, the product is below \<open>29\<close> and 28 files are taken, while
  \<open>\<lfloor>100 * 29 / 100\<rfloor> = 29\<close>. With two files and \<open>- 0.5\<close> the slice \<open>filenames[:-1]\<close> takes
  one file, while \<open>\<lfloor>N * p\<rfloor> = - 1\<close>.
\<close>

theorem sampled_prefix_counterexample:
  "selected_files [''f0'', ''f1'', ''f2'', ''f3'', ''f4'', ''f5'', ''f6'', ''f7'', ''f8'', ''f9'']
       (3152519739159347, - 52)
     = Inr [''f0'', ''f1'', ''f2'', ''f3'', ''f4'', ''f5'', ''f6'']
   \<and> \<lfloor>10 * float_val (3152519739159347, - 52)\<rfloor> = 6
   \<and> selected_files (map str_nat [0..<100]) (5224175567749775, - 54)
     = Inr (take 28 (map str_nat [0..<100]))
   \<and> \<bar>float_val (5224175567749775, - 54) - 29 / 100\<bar> < 1 / 2 ^ 55
   \<and> \<lfloor>100 * (29 / 100 :: rat)\<rfloor> = 29
   \<and> selected_files [''f0'', ''f1''] (- 1, - 1) = Inr [''f0'']
   \<and> \<lfloor>2 * float_val (- 1, - 1)\<rfloor> = - 1"
proof -
  have "\<lfloor>10 * float_val (3152519739159347, - 52)\<rfloor> = 6"
    by (simp add: float_val_def floor_eq_iff power_int_minus)
  moreover have "selected_files (map str_nat [0..<100]) (5224175567749775, - 54)
     = Inr (take 28 (map str_nat [0..<100]))"
    by (rule selected_files_29) simp
  moreover have "\<bar>float_val (5224175567749775, - 54) - 29 / 100\<bar> < 1 / 2 ^ 55"
    by (simp add: float_val_def power_int_minus)
  moreover have "\<lfloor>100 * (29 / 100 :: rat)\<rfloor> = 29"
    by simp
  moreover have "selected_files [''f0'', ''f1''] (- 1, - 1) = Inr [''f0'']"
    by (simp add: selected_files_def float_of_nat_def float_mul_def round_double_2
        round_double_minus_2 py_int_def py_slice_to_def)
  moreover have "\<lfloor>2 * float_val (- 1, - 1)\<rfloor> = - 1"
    by (simp add: float_val_def power_int_minus floor_eq_iff)
  ultimately show ?thesis
    using selected_files_seven by simp
qed

section \<open>Claims about the configuration registry\<close>

lemma name_to_config_allocated:
  "name_to_config s configs = Inr reg \<Longrightarrow> reg n = Some a \<Longrightarrow> a \<in> set configs \<and> a \<in> dom (objs s)"
proof (induction configs arbitrary: reg)
  case Nil
  then show ?case by auto
next
  case (Cons c cs)
  from Cons.prems(1) obtain d nm reg' where d: "objs s c = Some d" and nm: "map_of d ''name'' = Some nm"
    and reg': "name_to_config s cs = Inr reg'"
    and reg: "reg = (case reg' nm of None \<Rightarrow> reg'(nm \<mapsto> c) | Some _ \<Rightarrow> reg')"
    by (auto split: option.splits sum.splits)
  show ?case
  proof (cases "reg' n")
    case None
    with Cons.prems(2) reg have "n = nm" "a = c"
      by (auto split: option.splits if_splits)
    with d show ?thesis by auto
  next
    case (Some a')
    with Cons.prems(2) reg have "reg' n = Some a"
      by (auto split: option.splits if_splits)
    from Cons.IH [OF reg' this] show ?thesis by simp
  qed
qed

lemma name_to_config_cong:
  "(\<And>a. a \<in> set configs \<Longrightarrow> objs s' a = objs s a) \<Longrightarrow> name_to_config s' configs = name_to_config s configs"
proof (induction configs)
  case Nil
  then show ?case by simp
next
  case (Cons c cs)
  then have "name_to_config s' cs = name_to_config s cs" "objs s' c = objs s c"
    by simp_all
  then show ?case by (simp split: option.splits)
qed

lemma objs_copy_at:
  assumes "copy_at a s = Some (a', s1)"
  shows "a' = next_addr s" and "objs s1 = (objs s)(a' \<mapsto> the (objs s a))" and "objs s a \<noteq> None"
  using assms by (auto simp: copy_at_def split: option.splits)

lemma objs_update_at:
  "objs (update_at a kwargs s) b = (if b = a then map_option (\<lambda>d. dict_update d kwargs) (objs s a) else objs s b)"
  by (simp add: update_at_def split: option.splits)

lemma from_name_old_objects:
  assumes wf: "dom (objs s) \<subseteq> {..<next_addr s}" and b: "b \<in> dom (objs s)"
  shows "objs (snd (from_name fm registry name kwargs s)) b = objs s b"
proof (cases "registry name")
  case None
  then show ?thesis by (simp add: from_name_def)
next
  case (Some a)
  show ?thesis
  proof (cases "copy_at a s")
    case None
    with Some show ?thesis by (simp add: from_name_def)
  next
    case (Some r)
    obtain a' s1 where r: "r = (a', s1)" by (cases r)
    from wf b have "b < next_addr s" by blast
    with objs_copy_at(1) [of a s a' s1] Some r have ne: "b \<noteq> a'" by simp
    have "objs (update_at a' kwargs s1) b = objs s1 b"
      using ne by (simp add: objs_update_at)
    also have "\<dots> = objs s b"
      using objs_copy_at(2) [of a s a' s1] Some r ne by simp
    finally show ?thesis
      using \<open>registry name = Some a\<close> Some r by (simp add: from_name_def Let_def)
  qed
qed

lemma from_name_result:
  assumes "registry name = Some a" and "objs s a = Some d"
  shows "fst (from_name fm registry name kwargs s) = Config_init fm (dict_update d kwargs)"
  using assms by (simp add: from_name_def copy_at_def update_at_def Let_def)

text \<open>
  C10. In a store whose objects all lie below \<open>next_addr\<close>, with the registry built from the
  presets \<open>configs\<close>: a call of \<open>from_name\<close>, for any name and any overrides, leaves every
  dictionary that existed before the call as it was, in particular every preset the
  registry maps a name to; the registry built again from the same presets is the same;
  and for a name in the registry the result is the \<open>Config\<close> made from the preset's pairs
  updated with the overrides, that is, from the copy.
\<close>

theorem from_name_keeps_registry:
  assumes wf: "dom (objs s) \<subseteq> {..<next_addr s}"
    and reg: "name_to_config s configs = Inr registry"
  shows "(\<forall>n a. registry n = Some a \<longrightarrow>
            objs s a \<noteq> None \<and> objs (snd (from_name fm registry name kwargs s)) a = objs s a)
    \<and> (\<forall>b \<in> dom (objs s). objs (snd (from_name fm registry name kwargs s)) b = objs s b)
    \<and> name_to_config (snd (from_name fm registry name kwargs s)) configs = Inr registry
    \<and> (\<forall>a d. registry name = Some a \<and> objs s a = Some d \<longrightarrow>
          fst (from_name fm registry name kwargs s) = Config_init fm (dict_update d kwargs))"
proof -
  let ?s' = "snd (from_name fm registry name kwargs s)"
  have old: "objs ?s' b = objs s b" if "b \<in> dom (objs s)" for b
    using wf that by (rule from_name_old_objects)
  have entries: "objs s a \<noteq> None \<and> objs ?s' a = objs s a" if "registry n = Some a" for n a
  proof -
    from name_to_config_allocated [OF reg that] have "a \<in> dom (objs s)" by simp
    with old [of a] show ?thesis by auto
  qed
  have "name_to_config ?s' configs = name_to_config s configs"
  proof (rule name_to_config_cong)
    fix a assume "a \<in> set configs"
    show "objs ?s' a = objs s a"
    proof (cases "a \<in> dom (objs s)")
      case True
      then show ?thesis by (rule old)
    next
      case False
      have "name_to_config s configs \<noteq> Inr registry"
        using \<open>a \<in> set configs\<close> False
        by (induction configs arbitrary: registry) (auto split: option.splits sum.splits)
      with reg show ?thesis by simp
    qed
  qed
  with reg have again: "name_to_config ?s' configs = Inr registry" by simp
  from entries old again from_name_result [of registry name _ s _ fm kwargs] show ?thesis
    by blast
qed

text \<open>
  The preset \<open>stablelm-base-alpha-3b\<close> with the overrides \<open>org\<close> and \<open>n_layer\<close>: the
  stored preset keeps its \<open>org\<close> and gains no \<open>n_layer\<close>.
\<close>

theorem from_name_keeps_registry_witness:
  "dom (objs s0) \<subseteq> {..<next_addr s0}
   \<and> (\<exists>registry. name_to_config s0 [0, 1] = Inr registry
        \<and> registry (VStr ''stablelm-base-alpha-3b'') = Some 0
        \<and> objs (snd (from_name (\<lambda>n k. Inr n) registry (VStr ''stablelm-base-alpha-3b'')
                   [(''org'', VStr ''me''), (''n_layer'', VInt 2)] s0)) 0
            = Some [(''org'', VStr ''stabilityai''), (''name'', VStr ''stablelm-base-alpha-3b''),
                    (''padding_multiple'', VInt 512)]
        \<and> fst (from_name (\<lambda>n k. Inr n) registry (VStr ''stablelm-base-alpha-3b'')
                   [(''org'', VStr ''me''), (''n_layer'', VInt 2)] s0)
            = Config_init (\<lambda>n k. Inr n)
                [(''org'', VStr ''me''), (''name'', VStr ''stablelm-base-alpha-3b''),
                 (''padding_multiple'', VInt 512), (''n_layer'', VInt 2)])"
proof -
  let ?R = "[VStr ''stablelm-base-alpha-7b'' \<mapsto> 1, VStr ''stablelm-base-alpha-3b'' \<mapsto> 0] :: pyval \<rightharpoonup> nat"
  let ?d = "[(''org'', VStr ''stabilityai''), (''name'', VStr ''stablelm-base-alpha-3b''),
             (''padding_multiple'', VInt 512)]"
  let ?kw = "[(''org'', VStr ''me''), (''n_layer'', VInt 2)]"
  have wf: "dom (objs s0) \<subseteq> {..<next_addr s0}"
    by (simp add: s0_def)
  have reg: "name_to_config s0 [0, 1] = Inr ?R"
    by (simp add: s0_def)
  have R: "?R (VStr ''stablelm-base-alpha-3b'') = Some 0"
    by simp
  have d: "objs s0 0 = Some ?d"
    by (simp add: s0_def)
  note t = from_name_keeps_registry [OF wf reg, of "\<lambda>n k. Inr n" "VStr ''stablelm-base-alpha-3b''" ?kw]
  from t R d have "objs (snd (from_name (\<lambda>n k. Inr n) ?R (VStr ''stablelm-base-alpha-3b'') ?kw s0)) 0
      = Some ?d"
    by metis
  moreover from t R d have "fst (from_name (\<lambda>n k. Inr n) ?R (VStr ''stablelm-base-alpha-3b'') ?kw s0)
      = Config_init (\<lambda>n k. Inr n) (dict_update ?d ?kw)"
    by blast
  moreover have "dict_update ?d ?kw = [(''org'', VStr ''me''), (''name'', VStr ''stablelm-base-alpha-3b''),
                 (''padding_multiple'', VInt 512), (''n_layer'', VInt 2)]"
    by simp
  ultimately show ?thesis
    using wf reg R by (intro conjI exI [of _ ?R]) simp_all
qed

end
